theory Spec2Isabelle
  imports Main "HOL-Library.Char_ord" "HOL-Library.List_Lexorder"
begin

section \<open>Values, rows and errors\<close>

text \<open>
  The engine's values are the four kinds a SQL literal or a missing column can produce
  (\<^verbatim>\<open>int | str | bool | None\<close>); they are also the only values \<^verbatim>\<open>json.dumps\<close> is
  handed by the heap. Strings are text over the code points below 256, one character
  each, so that \<open>length\<close> counts what Python's \<^verbatim>\<open>len\<close> counts.
\<close>

datatype val = VNull | VBool bool | VInt int | VStr string

text \<open>
  A Python \<^verbatim>\<open>dict\<close> with string keys: an association list in insertion order.
  \<^verbatim>\<open>d[k] = v\<close> overwrites the value of an existing key in place and appends a new key.
\<close>

type_synonym 'v dict = "(string \<times> 'v) list"

fun dict_set :: "'v dict \<Rightarrow> string \<Rightarrow> 'v \<Rightarrow> 'v dict" where
  "dict_set [] k v = [(k, v)]"
| "dict_set ((k', v') # d) k v =
     (if k' = k then (k', v) # d else (k', v') # dict_set d k v)"

text \<open>\<^verbatim>\<open>{**a, **b}\<close>: the entries of \<open>b\<close> are stored into \<open>a\<close> one by one.\<close>

definition dict_merge :: "'v dict \<Rightarrow> 'v dict \<Rightarrow> 'v dict" where
  "dict_merge a b = foldl (\<lambda>d (k, v). dict_set d k v) a b"

type_synonym row = "val dict"

text \<open>\<^verbatim>\<open>row.get(k)\<close>: the value, or \<^verbatim>\<open>None\<close> for a missing key.\<close>

definition get :: "row \<Rightarrow> string \<Rightarrow> val" where
  "get r k = (case map_of r k of None \<Rightarrow> VNull | Some v \<Rightarrow> v)"

text \<open>
  Python's \<^verbatim>\<open>==\<close> on these values: \<^verbatim>\<open>bool\<close> is a subclass of \<^verbatim>\<open>int\<close>, so
  \<^verbatim>\<open>True == 1\<close> and \<^verbatim>\<open>False == 0\<close>; values of different kinds are unequal otherwise.
  Membership in a Python \<^verbatim>\<open>set\<close> follows the same equality.
\<close>

definition bool_int :: "bool \<Rightarrow> int" where
  "bool_int b = (if b then 1 else 0)"

fun py_eq :: "val \<Rightarrow> val \<Rightarrow> bool" where
  "py_eq VNull VNull = True"
| "py_eq (VBool a) (VBool b) = (a = b)"
| "py_eq (VInt a) (VInt b) = (a = b)"
| "py_eq (VStr a) (VStr b) = (a = b)"
| "py_eq (VBool a) (VInt b) = (bool_int a = b)"
| "py_eq (VInt a) (VBool b) = (a = bool_int b)"
| "py_eq _ _ = False"

definition py_in :: "val \<Rightarrow> val list \<Rightarrow> bool" where
  "py_in v vs = list_ex (py_eq v) vs"

text \<open>
  \<^verbatim>\<open>isinstance(v, int)\<close> holds of integers and of booleans; the result is the integer
  the value counts as in a set of record ids.
\<close>

fun as_int :: "val \<Rightarrow> int option" where
  "as_int (VInt n) = Some n"
| "as_int (VBool b) = Some (bool_int b)"
| "as_int _ = None"

datatype position = Position (line: nat) (col: nat)

text \<open>
  The errors the code raises. A message without parameters is the source's text. Of a
  message the source formats names, values or file paths into, the wording is kept and
  the formatted parts, with the words that only introduce them, are left out.
\<close>

datatype error =
    SqlSyntaxError string position
  | ExecutionError string
  | ConstraintError string
  | TypeError
  | ValueError
  | KeyError
  | IndexError
  | AttributeError string

text \<open>\<^verbatim>\<open>str(n)\<close> of a natural number, as the f-strings of result messages print a count.\<close>

fun nat_digits :: "nat \<Rightarrow> string" where
  "nat_digits n = (if n < 10 then [char_of (48 + n)] else nat_digits (n div 10) @ [char_of (48 + n mod 10)])"

declare nat_digits.simps [simp del]

section \<open>Heap: \<^verbatim>\<open>simpledb/storage/heap.py\<close>\<close>

text \<open>
  A table's log file is a sequence of lines. The engine writes one JSON object per line,
  so a non-blank line either parses to a JSON object or, cut short, is corrupt
  (\<^verbatim>\<open>json.JSONDecodeError\<close>). Blank lines are skipped by the scan and are not
  represented; neither is a line that holds a JSON value other than an object, which the
  engine never writes and no prefix of a line it writes is. The meta file holds
  \<^verbatim>\<open>next_rid\<close>. Both files are created together by \<^verbatim>\<open>HeapTable.open\<close> and never
  removed, so a table's files are one value.
\<close>

datatype log_line = Corrupt | Rec row

record heap =
  data :: "log_line list"
  next_rid :: int

definition new_heap :: heap where
  "new_heap = \<lparr>data = [], next_rid = 1\<rparr>"

text \<open>\<^verbatim>\<open>stored = {"_rid": rid, **row}\<close>, appended after the meta file is rewritten.\<close>

definition stored :: "int \<Rightarrow> row \<Rightarrow> row" where
  "stored rid r = dict_merge [(''_rid'', VInt rid)] r"

definition save_meta :: "heap \<Rightarrow> int \<Rightarrow> heap" where
  "save_meta h n = h\<lparr>next_rid := n\<rparr>"

definition append_line :: "heap \<Rightarrow> row \<Rightarrow> heap" where
  "append_line h r = h\<lparr>data := data h @ [Rec r]\<rparr>"

definition insert_heap :: "heap \<Rightarrow> row \<Rightarrow> heap \<times> int" where
  "insert_heap h r =
     (let rid = next_rid h;
          h1 = save_meta h (rid + 1);
          h2 = append_line h1 (stored rid r)
      in (h2, rid))"

definition tombstone :: "heap \<Rightarrow> int \<Rightarrow> heap" where
  "tombstone h rid = append_line h [(''_op'', VStr ''DELETE''), (''_rid'', VInt rid)]"

text \<open>
  \<^verbatim>\<open>scan_active\<close>: one pass collects the deleted rids and the remaining records, a
  second pass yields the records whose rid is an integer outside the deleted set.
\<close>

definition scan_step :: "row \<Rightarrow> int set \<Rightarrow> row list \<Rightarrow> int set \<times> row list" where
  "scan_step obj deleted rows =
     (if get obj ''_op'' = VStr ''DELETE'' then
        (case as_int (get obj ''_rid'') of
           Some rid \<Rightarrow> (insert rid deleted, rows)
         | None \<Rightarrow> (deleted, rows))
      else
        (case (get obj ''_deleted'' = VBool True, as_int (get obj ''_rid'')) of
           (True, Some rid) \<Rightarrow> (insert rid deleted, rows)
         | _ \<Rightarrow> (deleted, rows @ [obj])))"

fun scan_loop :: "log_line list \<Rightarrow> int set \<Rightarrow> row list \<Rightarrow> error + (int set \<times> row list)" where
  "scan_loop [] deleted rows = Inr (deleted, rows)"
| "scan_loop (Corrupt # ls) deleted rows = Inl (ExecutionError ''Corrupt record'')"
| "scan_loop (Rec obj # ls) deleted rows =
     (case scan_step obj deleted rows of (deleted', rows') \<Rightarrow> scan_loop ls deleted' rows')"

definition rid_live :: "int set \<Rightarrow> row \<Rightarrow> bool" where
  "rid_live deleted r =
     (case as_int (get r ''_rid'') of Some rid \<Rightarrow> rid \<notin> deleted | None \<Rightarrow> False)"

definition scan_active :: "log_line list \<Rightarrow> error + row list" where
  "scan_active ls =
     (case scan_loop ls {} [] of
        Inl e \<Rightarrow> Inl e
      | Inr (deleted, rows) \<Rightarrow> Inr (filter (rid_live deleted) rows))"

subsection \<open>What the scan is said to yield\<close>

definition records :: "log_line list \<Rightarrow> row list" where
  "records ls = concat (map (\<lambda>l. case l of Corrupt \<Rightarrow> [] | Rec r \<Rightarrow> [r]) ls)"

text \<open>
  A tombstone: a record with \<^verbatim>\<open>_op = DELETE\<close>, or (legacy) one carrying
  \<^verbatim>\<open>_deleted = true\<close>.
\<close>

definition is_tombstone :: "row \<Rightarrow> bool" where
  "is_tombstone r = (get r ''_op'' = VStr ''DELETE'' \<or> get r ''_deleted'' = VBool True)"

definition rid_of :: "row \<Rightarrow> int option" where
  "rid_of r = as_int (get r ''_rid'')"

definition tombstoned_rids :: "row list \<Rightarrow> int set" where
  "tombstoned_rids rs = {n. \<exists>r \<in> set rs. is_tombstone r \<and> rid_of r = Some n}"

text \<open>A live record: not a tombstone, with an integer rid that no tombstone names.\<close>

definition live :: "row list \<Rightarrow> row \<Rightarrow> bool" where
  "live rs r = (\<not> is_tombstone r \<and> rid_live (tombstoned_rids rs) r)"

text \<open>
  The scan as the specification words it: every non-tombstone record whose rid is not in
  the set of tombstoned rids, in log order.
\<close>

definition scan_active_spec :: "row list \<Rightarrow> row list" where
  "scan_active_spec rs =
     filter (\<lambda>r. \<not> is_tombstone r \<and>
                 \<not> py_in (get r ''_rid'') (map (\<lambda>t. get t ''_rid'') (filter is_tombstone rs))) rs"

text \<open>The records the first pass of the scan keeps in \<^verbatim>\<open>rows\<close>.\<close>

definition appended :: "row \<Rightarrow> bool" where
  "appended r = (get r ''_op'' \<noteq> VStr ''DELETE'' \<and>
     \<not> (get r ''_deleted'' = VBool True \<and> as_int (get r ''_rid'') \<noteq> None))"

text \<open>\<^verbatim>\<open>next_rid\<close> exceeds every integer rid of the log (rows and tombstones alike).\<close>

definition rids_below :: "int \<Rightarrow> log_line list \<Rightarrow> bool" where
  "rids_below n ls =
     list_all (\<lambda>r. case rid_of r of Some k \<Rightarrow> k < n | None \<Rightarrow> True) (records ls)"

subsection \<open>Dictionaries\<close>

lemma map_of_dict_set: "map_of (dict_set d k v) = (map_of d)(k \<mapsto> v)"
  by (induction d) auto

lemma map_fst_dict_set:
  "map fst (dict_set d k v) = (if k \<in> set (map fst d) then map fst d else map fst d @ [k])"
  by (induction d) (force+)

lemma keys_dict_set: "fst ` set (dict_set d k v) = insert k (fst ` set d)"
proof -
  have "set (map fst (dict_set d k v)) = insert k (set (map fst d))"
    unfolding map_fst_dict_set by auto
  then show ?thesis by simp
qed

lemma distinct_dict_set: "distinct (map fst d) \<Longrightarrow> distinct (map fst (dict_set d k v))"
  by (simp add: map_fst_dict_set)

lemma map_of_dict_merge_other:
  "k \<notin> fst ` set b \<Longrightarrow> map_of (dict_merge a b) k = map_of a k"
  unfolding dict_merge_def
  by (induction b arbitrary: a) (auto simp: map_of_dict_set)

lemma map_of_dict_merge_key:
  "distinct (map fst b) \<Longrightarrow> (k, v) \<in> set b \<Longrightarrow> map_of (dict_merge a b) k = Some v"
  unfolding dict_merge_def
proof (induction b arbitrary: a)
  case Nil
  then show ?case by simp
next
  case (Cons p b)
  obtain k' v' where p: "p = (k', v')" by (cases p)
  show ?case
  proof (cases "(k, v) \<in> set b")
    case True
    with Cons p show ?thesis by auto
  next
    case False
    with Cons.prems p have kv: "k' = k" "v' = v" by auto
    with Cons.prems p have "k \<notin> fst ` set b" by auto
    from map_of_dict_merge_other[OF this, of "dict_set a k v"] kv p show ?thesis
      by (simp add: dict_merge_def map_of_dict_set)
  qed
qed

lemma get_stored_key:
  assumes "distinct (map fst r)" and "k \<in> fst ` set r"
  shows "get (stored rid r) k = get r k"
proof -
  from assms(2) obtain v where kv: "(k, v) \<in> set r" by auto
  with assms(1) have "map_of r k = Some v" by simp
  with map_of_dict_merge_key[OF assms(1) kv] show ?thesis
    by (simp add: get_def stored_def)
qed

lemma get_stored_rid:
  "''_rid'' \<notin> fst ` set r \<Longrightarrow> get (stored rid r) ''_rid'' = VInt rid"
  by (simp add: get_def stored_def map_of_dict_merge_other)

subsection \<open>The scan as a filter\<close>

lemma records_simps [simp]:
  "records [] = []"
  "records (Corrupt # ls) = records ls"
  "records (Rec r # ls) = r # records ls"
  "records (xs @ ys) = records xs @ records ys"
  by (simp_all add: records_def)

lemma tombstoned_rids_simps [simp]:
  "tombstoned_rids [] = {}"
  "tombstoned_rids (xs @ ys) = tombstoned_rids xs \<union> tombstoned_rids ys"
  by (auto simp: tombstoned_rids_def)

lemma tombstoned_rids_Cons:
  "tombstoned_rids (r # rs) =
     (if is_tombstone r then (case rid_of r of Some n \<Rightarrow> {n} | None \<Rightarrow> {}) else {}) \<union> tombstoned_rids rs"
  by (auto simp: tombstoned_rids_def split: option.splits)

lemma scan_step_eq:
  "scan_step obj deleted rows =
     (deleted \<union> tombstoned_rids [obj], rows @ filter appended [obj])"
  by (auto simp: scan_step_def tombstoned_rids_Cons is_tombstone_def rid_of_def appended_def
      split: option.splits bool.splits)

lemma scan_loop_eq:
  "Corrupt \<notin> set ls \<Longrightarrow>
   scan_loop ls deleted rows =
     Inr (deleted \<union> tombstoned_rids (records ls), rows @ filter appended (records ls))"
proof (induction ls arbitrary: deleted rows)
  case Nil
  then show ?case by simp
next
  case (Cons l ls)
  show ?case
  proof (cases l)
    case Corrupt
    with Cons.prems show ?thesis by simp
  next
    case (Rec obj)
    have split: "tombstoned_rids (obj # records ls) = tombstoned_rids [obj] \<union> tombstoned_rids (records ls)"
      using tombstoned_rids_simps(2)[of "[obj]" "records ls"] by simp
    from Cons.prems have "Corrupt \<notin> set ls" by simp
    from Cons.IH[OF this] Rec show ?thesis
      by (simp add: scan_step_eq split Un_assoc del: tombstoned_rids_simps)
  qed
qed

lemma scan_loop_corrupt:
  "Corrupt \<in> set ls \<Longrightarrow> scan_loop ls deleted rows = Inl (ExecutionError ''Corrupt record'')"
proof (induction ls arbitrary: deleted rows)
  case Nil
  then show ?case by simp
next
  case (Cons l ls)
  then show ?case by (cases l) (auto split: prod.splits)
qed

lemma rid_live_filter:
  "filter (\<lambda>r. appended r \<and> rid_live D r) rs = filter (\<lambda>r. \<not> is_tombstone r \<and> rid_live D r) rs"
  by (induction rs) (auto simp: rid_live_def rid_of_def is_tombstone_def appended_def split: option.splits)

lemma scan_active_eq:
  "scan_active ls =
     (if Corrupt \<in> set ls then Inl (ExecutionError ''Corrupt record'')
      else Inr (filter (live (records ls)) (records ls)))"
proof (cases "Corrupt \<in> set ls")
  case True
  then show ?thesis by (simp add: scan_active_def scan_loop_corrupt)
next
  case False
  have "live (records ls) = (\<lambda>r. \<not> is_tombstone r \<and> rid_live (tombstoned_rids (records ls)) r)"
    by (rule ext) (simp add: live_def)
  with False show ?thesis
    by (simp add: scan_active_def scan_loop_eq rid_live_filter)
qed



lemma scan_active_rows_int_rid:
  "scan_active ls = Inr rows \<Longrightarrow> r \<in> set rows \<Longrightarrow> rid_of r \<noteq> None"
  by (auto simp: scan_active_eq live_def rid_live_def rid_of_def split: if_splits option.splits)

subsection \<open>Claims about the heap\<close>

text \<open>
  C3, as amended. \<^verbatim>\<open>scan_active\<close> fails with ExecutionError on a corrupt line; otherwise
  it yields, in log order, exactly the records of the log that are not tombstones and
  whose rid is an integer that no tombstone names. A tombstone is a record with
  \<^verbatim>\<open>_op = DELETE\<close> or, for backward compatibility, with \<^verbatim>\<open>_deleted = true\<close>. A record
  whose rid is missing or not an integer is never yielded.
\<close>

theorem scan_active_yields_live_records:
  "scan_active ls =
     (if Corrupt \<in> set ls then Inl (ExecutionError ''Corrupt record'')
      else Inr (filter (\<lambda>r. \<not> is_tombstone r \<and>
                  (case rid_of r of
                     Some n \<Rightarrow> n \<notin> tombstoned_rids (records ls)
                   | None \<Rightarrow> False))
                (records ls)))"
proof -
  have "live (records ls) =
          (\<lambda>r. \<not> is_tombstone r \<and>
             (case rid_of r of Some n \<Rightarrow> n \<notin> tombstoned_rids (records ls) | None \<Rightarrow> False))"
    by (rule ext) (simp add: live_def rid_live_def rid_of_def)
  then show ?thesis by (simp add: scan_active_eq)
qed

text \<open>
  C3 as stated fails on a record whose rid is not an integer: the log
  \<^verbatim>\<open>{"_rid": "7"}\<close> holds one non-tombstone record, its rid is in no tombstone set, and
  the scan yields nothing.
\<close>

theorem scan_active_spec_counterexample:
  "scan_active [Rec [(''_rid'', VStr ''7'')]] = Inr [] \<and>
   scan_active_spec (records [Rec [(''_rid'', VStr ''7'')]]) = [[(''_rid'', VStr ''7'')]]"
  by (simp add: scan_active_def scan_step_def rid_live_def get_def scan_active_spec_def
      is_tombstone_def py_in_def)

text \<open>
  The first half of C4: \<^verbatim>\<open>insert\<close> allocates \<^verbatim>\<open>rid = next_rid\<close>, leaves
  \<^verbatim>\<open>next_rid = rid + 1\<close> in the meta, appends one record and returns the rid.
\<close>

lemma insert_heap_allocates:
  "insert_heap h r =
     (\<lparr>data = data h @ [Rec (stored (next_rid h) r)], next_rid = next_rid h + 1\<rparr>, next_rid h)"
  by (simp add: insert_heap_def save_meta_def append_line_def Let_def)

text \<open>
  For a row without a \<^verbatim>\<open>_rid\<close> key the appended record carries the allocated rid, and
  \<^verbatim>\<open>next_rid\<close> stays above every rid of the log.
\<close>

lemma rid_of_stored:
  "''_rid'' \<notin> fst ` set r \<Longrightarrow> rid_of (stored rid r) = Some rid"
  by (simp add: rid_of_def get_stored_rid)

lemma rids_below_mono: "rids_below n ls \<Longrightarrow> n \<le> m \<Longrightarrow> rids_below m ls"
  unfolding rids_below_def list_all_iff
  by (auto split: option.splits)

lemma rids_below_append:
  "rids_below n (xs @ ys) = (rids_below n xs \<and> rids_below n ys)"
  by (simp add: rids_below_def)

lemma insert_heap_keeps_rids_below:
  assumes "''_rid'' \<notin> fst ` set r" and "rids_below (next_rid h) (data h)"
  shows "rids_below (next_rid (fst (insert_heap h r))) (data (fst (insert_heap h r)))"
proof -
  have "rids_below (next_rid h + 1) (data h)"
    using assms(2) by (rule rids_below_mono) simp
  moreover have "rids_below (next_rid h + 1) [Rec (stored (next_rid h) r)]"
    using assms(1) by (simp add: rids_below_def rid_of_stored)
  ultimately show ?thesis
    by (simp add: insert_heap_allocates rids_below_append)
qed

text \<open>
  C4 at its failing input. A row that itself has a \<^verbatim>\<open>_rid\<close> key overrides the allocated
  rid in \<^verbatim>\<open>{"_rid": rid, **row}\<close>: on a fresh heap, inserting \<^verbatim>\<open>{"_rid": 100}\<close>
  returns rid 1 and leaves \<^verbatim>\<open>next_rid = 2\<close>, while the log holds a record with rid 100.
\<close>

theorem insert_heap_rid_overridden:
  "insert_heap new_heap [(''_rid'', VInt 100)] =
     (\<lparr>data = [Rec [(''_rid'', VInt 100)]], next_rid = 2\<rparr>, 1) \<and>
   \<not> rids_below 2 [Rec [(''_rid'', VInt 100)]]"
  by (simp add: insert_heap_allocates new_heap_def stored_def dict_merge_def rids_below_def
      rid_of_def get_def records_def)


section \<open>Statements: \<^verbatim>\<open>simpledb/ast.py\<close>\<close>

record TypeSpec =
  type_name :: string
  params :: "int list"

record ColumnDef =
  col_name :: string
  col_type :: TypeSpec
  not_null :: bool
  unique :: bool
  primary_key :: bool

record ColumnRef =
  column :: string
  table :: "string option"

record Condition =
  cond_left :: ColumnRef
  cond_op :: string
  cond_right :: val

text \<open>A \<^verbatim>\<open>WhereClause\<close> holds one field, its list of conditions.\<close>

type_synonym WhereClause = "Condition list"

record JoinClause =
  join_table :: string
  join_left :: ColumnRef
  join_right :: ColumnRef

record Assignment =
  asg_column :: string
  asg_value :: val

datatype Statement =
    CreateTable string "ColumnDef list"
  | CreateIndex string string string
  | Insert string "string list" "val list"
  | Select "ColumnRef list option" string "JoinClause list" "WhereClause option"
  | Update string "Assignment list" "WhereClause option"
  | Delete string "WhereClause option"

datatype result =
    CommandOk int string
  | QueryResult "string list" "val list list"

section \<open>Catalog: \<^verbatim>\<open>simpledb/catalog.py\<close>\<close>

record IndexMeta =
  index_name :: string
  index_table :: string
  index_column :: string

record TableMeta =
  table_name :: string
  columns :: "ColumnDef list"
  indexes :: "IndexMeta dict"

record Catalog =
  version :: int
  tables :: "TableMeta dict"
  global_indexes :: "IndexMeta dict"

definition empty_catalog :: Catalog where
  "empty_catalog = \<lparr>version = 1, tables = [], global_indexes = []\<rparr>"

definition column_names :: "TableMeta \<Rightarrow> string set" where
  "column_names t = set (map col_name (columns t))"

definition primary_key_column :: "TableMeta \<Rightarrow> string option" where
  "primary_key_column t =
     (case filter primary_key (columns t) of [] \<Rightarrow> None | c # _ \<Rightarrow> Some (col_name c))"

definition require_table :: "Catalog \<Rightarrow> string \<Rightarrow> error + TableMeta" where
  "require_table cat t =
     (case map_of (tables cat) t of
        None \<Rightarrow> Inl (ExecutionError ''Table not found'')
      | Some tm \<Rightarrow> Inr tm)"

text \<open>
  \<^verbatim>\<open>str.upper\<close>. Text is taken over the code points below 256, which is what a
  character of the model holds. There the letters \<^verbatim>\<open>a\<close> to \<^verbatim>\<open>z\<close> and U+00E0 to U+00FE
  (U+00F7, the division sign, apart) move down by 32 and U+00DF, the sharp s, becomes
  \<^verbatim>\<open>SS\<close>. The upper-case forms of U+00B5 and U+00FF lie above 255: these two characters
  are kept. The code compares upper-cased text with ASCII names only, and no comparison
  with an ASCII name can tell the difference.
\<close>

definition char_upper :: "char \<Rightarrow> string" where
  "char_upper c =
     (let n = (of_char c :: nat) in
      if 97 \<le> n \<and> n \<le> 122 then [char_of (n - 32)]
      else if n = 223 then ''SS''
      else if 224 \<le> n \<and> n \<le> 254 \<and> n \<noteq> 247 then [char_of (n - 32)]
      else [c])"

definition upper :: "string \<Rightarrow> string" where
  "upper s = concat (map char_upper s)"

definition SUPPORTED_TYPES :: "string list" where
  "SUPPORTED_TYPES = [''INTEGER'', ''VARCHAR'', ''TEXT'', ''DATE'', ''BOOLEAN'']"

definition validate_type :: "TypeSpec \<Rightarrow> error option" where
  "validate_type ty =
     (let tname = upper (type_name ty) in
      if tname \<notin> set SUPPORTED_TYPES then Some (ExecutionError ''Unsupported type'')
      else if tname = ''VARCHAR'' then
        (case params ty of
           [p] \<Rightarrow> if p \<le> 0 then Some (ExecutionError ''VARCHAR requires exactly one positive length parameter, e.g. VARCHAR(255)'')
                  else None
         | _ \<Rightarrow> Some (ExecutionError ''VARCHAR requires exactly one positive length parameter, e.g. VARCHAR(255)''))
      else if params ty \<noteq> [] then Some (ExecutionError ''Type does not accept parameters'')
      else None)"

text \<open>The first error a check raises over a list, in list order.\<close>

fun first_error :: "('a \<Rightarrow> error option) \<Rightarrow> 'a list \<Rightarrow> error option" where
  "first_error f [] = None"
| "first_error f (x # xs) = (case f x of Some e \<Rightarrow> Some e | None \<Rightarrow> first_error f xs)"

definition validate_create_table :: "Catalog \<Rightarrow> string \<Rightarrow> ColumnDef list \<Rightarrow> error option" where
  "validate_create_table cat tn cols =
     (if tn \<in> fst ` set (tables cat) then Some (ExecutionError ''Table already exists'')
      else if length (remdups (map col_name cols)) \<noteq> length cols then
        Some (ExecutionError ''Duplicate column name in CREATE TABLE'')
      else if length (filter primary_key cols) > 1 then
        Some (ExecutionError ''Only one PRIMARY KEY column is supported in this phase'')
      else first_error (\<lambda>c. validate_type (col_type c)) cols)"

definition validate_create_index :: "Catalog \<Rightarrow> string \<Rightarrow> string \<Rightarrow> string \<Rightarrow> error option" where
  "validate_create_index cat iname tn cname =
     (if iname \<in> fst ` set (global_indexes cat) then Some (ExecutionError ''Index already exists'')
      else case require_table cat tn of
        Inl e \<Rightarrow> Some e
      | Inr t \<Rightarrow> if cname \<notin> column_names t then Some (ExecutionError ''Column not found'') else None)"


subsection \<open>Saving the catalog\<close>

text \<open>
  \<^verbatim>\<open>catalog.json\<close> as the JSON value \<^verbatim>\<open>json.loads\<close> gives back for the text
  \<^verbatim>\<open>json.dumps(out, indent=2, sort_keys=True)\<close> wrote: objects list their keys in sorted
  order.
\<close>

datatype json =
    JNull
  | JBool bool
  | JInt int
  | JStr string
  | JArr "json list"
  | JObj "(string \<times> json) list"

definition col_to_dict :: "ColumnDef \<Rightarrow> json" where
  "col_to_dict c =
     JObj [(''name'', JStr (col_name c)),
           (''not_null'', JBool (not_null c)),
           (''primary_key'', JBool (primary_key c)),
           (''typ'', JObj [(''name'', JStr (type_name (col_type c))),
                          (''params'', JArr (map JInt (params (col_type c))))]),
           (''unique'', JBool (unique c))]"

definition index_to_json :: "IndexMeta \<Rightarrow> json" where
  "index_to_json i =
     JObj [(''column_name'', JStr (index_column i)), (''table_name'', JStr (index_table i))]"

definition indexes_to_json :: "IndexMeta dict \<Rightarrow> json" where
  "indexes_to_json d = JObj (map (\<lambda>(iname, idx). (iname, index_to_json idx)) (sort_key fst d))"

definition table_to_json :: "TableMeta \<Rightarrow> json" where
  "table_to_json t =
     JObj [(''columns'', JArr (map col_to_dict (columns t))),
           (''indexes'', indexes_to_json (indexes t))]"

definition save :: "Catalog \<Rightarrow> json" where
  "save cat =
     JObj [(''indexes'', indexes_to_json (global_indexes cat)),
           (''tables'', JObj (map (\<lambda>(tname, t). (tname, table_to_json t)) (sort_key fst (tables cat)))),
           (''version'', JInt (version cat))]"

section \<open>Executor: \<^verbatim>\<open>simpledb/exec/executor.py\<close>\<close>

text \<open>
  The state a statement runs in: the catalog object shared with the \<^verbatim>\<open>Database\<close>, the
  catalog file, and the heap files by table name (\<open>None\<close> where \<^verbatim>\<open>HeapTable.open\<close> has
  not yet created them). Distinct table names name distinct files.
\<close>

record db =
  catalog :: Catalog
  catalog_file :: "json option"
  heaps :: "string \<rightharpoonup> heap"

definition init_db :: db where
  "init_db = \<lparr>catalog = empty_catalog, catalog_file = None, heaps = Map.empty\<rparr>"

text \<open>\<^verbatim>\<open>HeapTable.open\<close>: the table's files, created empty with \<^verbatim>\<open>next_rid = 1\<close> if absent.\<close>

definition heap_of :: "db \<Rightarrow> string \<Rightarrow> heap" where
  "heap_of st tn = (case heaps st tn of None \<Rightarrow> new_heap | Some h \<Rightarrow> h)"

definition put_heap :: "db \<Rightarrow> string \<Rightarrow> heap \<Rightarrow> db" where
  "put_heap st tn h = st\<lparr>heaps := (heaps st)(tn \<mapsto> h)\<rparr>"

definition open_heap :: "db \<Rightarrow> string \<Rightarrow> db" where
  "open_heap st tn = put_heap st tn (heap_of st tn)"

definition resolve_col :: "string \<Rightarrow> ColumnRef \<Rightarrow> error + string" where
  "resolve_col tn colref =
     (case table colref of
        Some q \<Rightarrow> if q \<noteq> tn then Inl (ExecutionError ''column qualifier does not match'')
                  else Inr (column colref)
      | None \<Rightarrow> Inr (column colref))"

definition check_column_type :: "row \<Rightarrow> ColumnDef \<Rightarrow> error option" where
  "check_column_type r c =
     (case map_of r (col_name c) of
        None \<Rightarrow> None
      | Some VNull \<Rightarrow> None
      | Some v \<Rightarrow>
          (let t = upper (type_name (col_type c)) in
           if t = ''INTEGER'' then
             (case v of VInt _ \<Rightarrow> None | _ \<Rightarrow> Some (ExecutionError ''Type error: expects INTEGER''))
           else if t \<in> {''VARCHAR'', ''TEXT'', ''DATE''} then
             (case v of
                VStr s \<Rightarrow>
                  if t = ''VARCHAR'' then
                    (case params (col_type c) of
                       [] \<Rightarrow> Some IndexError
                     | max_len # _ \<Rightarrow>
                         if int (length s) > max_len then Some (ExecutionError ''Type error: exceeds VARCHAR'')
                         else None)
                  else None
              | _ \<Rightarrow> Some (ExecutionError ''Type error: expects TEXT/DATE''))
           else if t = ''BOOLEAN'' then
             (case v of VBool _ \<Rightarrow> None | _ \<Rightarrow> Some (ExecutionError ''Type error: expects BOOLEAN''))
           else Some (ExecutionError ''Unsupported type'')))"

definition validate_insert_types :: "TableMeta \<Rightarrow> row \<Rightarrow> error option" where
  "validate_insert_types t r = first_error (check_column_type r) (columns t)"

definition check_condition :: "string \<Rightarrow> row \<Rightarrow> Condition \<Rightarrow> error + bool" where
  "check_condition tn r cond =
     (if cond_op cond \<noteq> ''='' then Inl (ExecutionError ''Only '=' is supported in WHERE in this phase'')
      else case resolve_col tn (cond_left cond) of
        Inl e \<Rightarrow> Inl e
      | Inr c \<Rightarrow> Inr (py_eq (get r c) (cond_right cond)))"

text \<open>The loop over the conditions returns \<^verbatim>\<open>False\<close> at the first condition that fails.\<close>

fun conditions_match :: "string \<Rightarrow> row \<Rightarrow> Condition list \<Rightarrow> error + bool" where
  "conditions_match tn r [] = Inr True"
| "conditions_match tn r (cond # conds) =
     (case check_condition tn r cond of
        Inl e \<Rightarrow> Inl e
      | Inr False \<Rightarrow> Inr False
      | Inr True \<Rightarrow> conditions_match tn r conds)"

definition row_matches_where :: "string \<Rightarrow> row \<Rightarrow> WhereClause option \<Rightarrow> error + bool" where
  "row_matches_where tn r w =
     (case w of None \<Rightarrow> Inr True | Some conds \<Rightarrow> conditions_match tn r conds)"

text \<open>\<^verbatim>\<open>[r for r in existing if self._row_matches_where(...)]\<close>.\<close>

fun matching_rows :: "string \<Rightarrow> WhereClause option \<Rightarrow> row list \<Rightarrow> error + row list" where
  "matching_rows tn w [] = Inr []"
| "matching_rows tn w (r # rs) =
     (case row_matches_where tn r w of
        Inl e \<Rightarrow> Inl e
      | Inr b \<Rightarrow>
          (case matching_rows tn w rs of
             Inl e \<Rightarrow> Inl e
           | Inr ms \<Rightarrow> Inr (if b then r # ms else ms)))"


subsection \<open>Constraint enforcement\<close>

text \<open>
  \<^verbatim>\<open>int(v)\<close> on a record id. Rows handed to the executor come from \<^verbatim>\<open>scan_active\<close>,
  whose rids are integers; \<^verbatim>\<open>None\<close> raises TypeError, and a string is taken to raise
  ValueError (Python would parse a numeric string).
\<close>

fun py_int :: "val \<Rightarrow> error + int" where
  "py_int (VInt n) = Inr n"
| "py_int (VBool b) = Inr (bool_int b)"
| "py_int VNull = Inl TypeError"
| "py_int (VStr s) = Inl ValueError"

text \<open>\<^verbatim>\<open>int(r["_rid"])\<close>: a missing key raises KeyError.\<close>

definition py_rid :: "row \<Rightarrow> error + int" where
  "py_rid r = (case map_of r ''_rid'' of None \<Rightarrow> Inl KeyError | Some v \<Rightarrow> py_int v)"

text \<open>\<^verbatim>\<open>[r for r in existing_rows if int(r.get("_rid")) not in exclude_rids]\<close>.\<close>

fun existing_kept :: "row list \<Rightarrow> int set \<Rightarrow> error + row list" where
  "existing_kept [] ex = Inr []"
| "existing_kept (r # rs) ex =
     (case py_int (get r ''_rid'') of
        Inl e \<Rightarrow> Inl e
      | Inr n \<Rightarrow>
          (case existing_kept rs ex of
             Inl e \<Rightarrow> Inl e
           | Inr ks \<Rightarrow> Inr (if n \<notin> ex then r # ks else ks)))"

definition check_not_null :: "row \<Rightarrow> ColumnDef \<Rightarrow> error option" where
  "check_not_null nr c =
     (if (not_null c \<or> primary_key c) \<and> get nr (col_name c) = VNull then
        (if primary_key c then Some (ConstraintError ''PRIMARY KEY column cannot be NULL'')
         else Some (ConstraintError ''NOT NULL constraint failed''))
      else None)"

fun pk_loop :: "string \<Rightarrow> val list \<Rightarrow> val list \<Rightarrow> row list \<Rightarrow> error option" where
  "pk_loop pk existing_pks seen_new_pks [] = None"
| "pk_loop pk existing_pks seen_new_pks (nr # nrs) =
     (if py_in (get nr pk) existing_pks then
        Some (ConstraintError ''PRIMARY KEY constraint failed: duplicate value'')
      else if py_in (get nr pk) seen_new_pks then
        Some (ConstraintError ''PRIMARY KEY constraint failed: duplicate value within UPDATE/INSERT batch'')
      else pk_loop pk existing_pks (get nr pk # seen_new_pks) nrs)"

fun unique_loop :: "string \<Rightarrow> val list \<Rightarrow> val list \<Rightarrow> row list \<Rightarrow> error option" where
  "unique_loop ucol existing_vals seen_new [] = None"
| "unique_loop ucol existing_vals seen_new (nr # nrs) =
     (if get nr ucol = VNull then unique_loop ucol existing_vals seen_new nrs
      else if py_in (get nr ucol) existing_vals then
        Some (ConstraintError ''UNIQUE constraint failed: duplicate value'')
      else if py_in (get nr ucol) seen_new then
        Some (ConstraintError ''UNIQUE constraint failed: duplicate value within UPDATE/INSERT batch'')
      else unique_loop ucol existing_vals (get nr ucol # seen_new) nrs)"

definition check_primary_key :: "TableMeta \<Rightarrow> row list \<Rightarrow> row list \<Rightarrow> error option" where
  "check_primary_key t kept new_rows =
     (case primary_key_column t of
        None \<Rightarrow> None
      | Some pk \<Rightarrow> pk_loop pk (map (\<lambda>r. get r pk) kept) [] new_rows)"

definition check_unique :: "row list \<Rightarrow> row list \<Rightarrow> string \<Rightarrow> error option" where
  "check_unique kept new_rows ucol =
     unique_loop ucol (filter (\<lambda>v. v \<noteq> VNull) (map (\<lambda>r. get r ucol) kept)) [] new_rows"

definition enforce_constraints_batch ::
  "TableMeta \<Rightarrow> row list \<Rightarrow> row list \<Rightarrow> int set \<Rightarrow> error option" where
  "enforce_constraints_batch t existing_rows new_rows exclude_rids =
     (case existing_kept existing_rows exclude_rids of
        Inl e \<Rightarrow> Some e
      | Inr kept \<Rightarrow>
          (case first_error (\<lambda>nr. first_error (check_not_null nr) (columns t)) new_rows of
             Some e \<Rightarrow> Some e
           | None \<Rightarrow>
               (case check_primary_key t kept new_rows of
                  Some e \<Rightarrow> Some e
                | None \<Rightarrow>
                    first_error (check_unique kept new_rows)
                      (map col_name (filter unique (columns t))))))"

subsection \<open>INSERT\<close>

text \<open>\<^verbatim>\<open>{c.name: None for c in table.columns}\<close>, then \<^verbatim>\<open>row[c] = v\<close> over the zipped lists.\<close>

definition null_row :: "TableMeta \<Rightarrow> row" where
  "null_row t = foldl (\<lambda>d c. dict_set d (col_name c) VNull) [] (columns t)"

definition insert_row :: "TableMeta \<Rightarrow> string list \<Rightarrow> val list \<Rightarrow> row" where
  "insert_row t cols vals = foldl (\<lambda>d (c, v). dict_set d c v) (null_row t) (zip cols vals)"

text \<open>The statements of \<^verbatim>\<open>_insert\<close> from the type validation of the built \<^verbatim>\<open>row\<close> on.\<close>

definition insert_built_row :: "db \<Rightarrow> string \<Rightarrow> TableMeta \<Rightarrow> row \<Rightarrow> db \<times> (error + result)" where
  "insert_built_row st tn t r =
     (case validate_insert_types t r of
        Some e \<Rightarrow> (st, Inl e)
      | None \<Rightarrow>
          (let st1 = open_heap st tn in
           case scan_active (data (heap_of st1 tn)) of
             Inl e \<Rightarrow> (st1, Inl e)
           | Inr existing \<Rightarrow>
               (case enforce_constraints_batch t existing [r] {} of
                  Some e \<Rightarrow> (st1, Inl e)
                | None \<Rightarrow>
                    (put_heap st1 tn (fst (insert_heap (heap_of st1 tn) r)),
                     Inr (CommandOk 1 ''1 row inserted'')))))"

definition exec_insert :: "db \<Rightarrow> string \<Rightarrow> string list \<Rightarrow> val list \<Rightarrow> db \<times> (error + result)" where
  "exec_insert st tn cols vals =
     (case require_table (catalog st) tn of
        Inl e \<Rightarrow> (st, Inl e)
      | Inr t \<Rightarrow>
          if list_ex (\<lambda>c. c \<notin> column_names t) cols then
            (st, Inl (ExecutionError ''Unknown column in INSERT''))
          else insert_built_row st tn t (insert_row t cols vals))"

subsection \<open>SELECT\<close>

fun resolve_cols :: "string \<Rightarrow> ColumnRef list \<Rightarrow> error + string list" where
  "resolve_cols tn [] = Inr []"
| "resolve_cols tn (c # cs) =
     (case resolve_col tn c of
        Inl e \<Rightarrow> Inl e
      | Inr n \<Rightarrow> (case resolve_cols tn cs of Inl e \<Rightarrow> Inl e | Inr ns \<Rightarrow> Inr (n # ns)))"

definition select_columns :: "TableMeta \<Rightarrow> string \<Rightarrow> ColumnRef list option \<Rightarrow> error + string list" where
  "select_columns t tn cols =
     (case cols of
        None \<Rightarrow> Inr (map col_name (columns t))
      | Some cs \<Rightarrow>
          (case resolve_cols tn cs of
             Inl e \<Rightarrow> Inl e
           | Inr out_cols \<Rightarrow>
               if list_ex (\<lambda>c. c \<notin> column_names t) out_cols then
                 Inl (ExecutionError ''Unknown column in SELECT'')
               else Inr out_cols))"

definition exec_select ::
  "db \<Rightarrow> ColumnRef list option \<Rightarrow> string \<Rightarrow> JoinClause list \<Rightarrow> WhereClause option
     \<Rightarrow> db \<times> (error + result)" where
  "exec_select st cols tn joins w =
     (if joins \<noteq> [] then (st, Inl (ExecutionError ''JOIN not implemented yet (later step)''))
      else case require_table (catalog st) tn of
        Inl e \<Rightarrow> (st, Inl e)
      | Inr t \<Rightarrow>
          (let st1 = open_heap st tn in
           case select_columns t tn cols of
             Inl e \<Rightarrow> (st1, Inl e)
           | Inr out_cols \<Rightarrow>
               (case scan_active (data (heap_of st1 tn)) of
                  Inl e \<Rightarrow> (st1, Inl e)
                | Inr existing \<Rightarrow>
                    (case matching_rows tn w existing of
                       Inl e \<Rightarrow> (st1, Inl e)
                     | Inr ms \<Rightarrow>
                         (st1, Inr (QueryResult out_cols (map (\<lambda>r. map (get r) out_cols) ms)))))))"

subsection \<open>UPDATE\<close>

definition candidate :: "TableMeta \<Rightarrow> Assignment list \<Rightarrow> row \<Rightarrow> row" where
  "candidate t asgs old =
     foldl (\<lambda>d a. dict_set d (asg_column a) (asg_value a))
       (foldl (\<lambda>d c. dict_set d (col_name c) (get old (col_name c))) [] (columns t))
       asgs"

text \<open>
  The loop that builds the candidates: for each match its rid joins \<^verbatim>\<open>exclude_rids\<close> and
  its candidate is type-checked and joins \<^verbatim>\<open>new_rows\<close>. Nothing is written.
\<close>

fun build_candidates ::
  "TableMeta \<Rightarrow> Assignment list \<Rightarrow> row list \<Rightarrow> error + (int list \<times> row list)" where
  "build_candidates t asgs [] = Inr ([], [])"
| "build_candidates t asgs (old # olds) =
     (case py_rid old of
        Inl e \<Rightarrow> Inl e
      | Inr old_rid \<Rightarrow>
          (case validate_insert_types t (candidate t asgs old) of
             Some e \<Rightarrow> Inl e
           | None \<Rightarrow>
               (case build_candidates t asgs olds of
                  Inl e \<Rightarrow> Inl e
                | Inr (rids, new_rows) \<Rightarrow> Inr (old_rid # rids, candidate t asgs old # new_rows))))"

text \<open>
  \<^verbatim>\<open>for old, candidate in zip(matches, new_rows): heap.insert(candidate);
  heap.tombstone(int(old["_rid"]))\<close>.
\<close>

fun apply_updates :: "heap \<Rightarrow> (row \<times> row) list \<Rightarrow> heap \<times> error option" where
  "apply_updates h [] = (h, None)"
| "apply_updates h ((old, cand) # rest) =
     (case py_rid old of
        Inl e \<Rightarrow> (fst (insert_heap h cand), Some e)
      | Inr old_rid \<Rightarrow> apply_updates (tombstone (fst (insert_heap h cand)) old_rid) rest)"

definition exec_update ::
  "db \<Rightarrow> string \<Rightarrow> Assignment list \<Rightarrow> WhereClause option \<Rightarrow> db \<times> (error + result)" where
  "exec_update st tn asgs w =
     (case require_table (catalog st) tn of
        Inl e \<Rightarrow> (st, Inl e)
      | Inr t \<Rightarrow>
          (let st1 = open_heap st tn in
           if list_ex (\<lambda>a. asg_column a \<notin> column_names t) asgs then
             (st1, Inl (ExecutionError ''Unknown column in UPDATE''))
           else
             (case scan_active (data (heap_of st1 tn)) of
                Inl e \<Rightarrow> (st1, Inl e)
              | Inr existing \<Rightarrow>
                  (case matching_rows tn w existing of
                     Inl e \<Rightarrow> (st1, Inl e)
                   | Inr matches \<Rightarrow>
                       if matches = [] then (st1, Inr (CommandOk 0 ''0 rows updated''))
                       else
                         (case build_candidates t asgs matches of
                            Inl e \<Rightarrow> (st1, Inl e)
                          | Inr (rids, new_rows) \<Rightarrow>
                              (case enforce_constraints_batch t existing new_rows (set rids) of
                                 Some e \<Rightarrow> (st1, Inl e)
                               | None \<Rightarrow>
                                   (case apply_updates (heap_of st1 tn) (zip matches new_rows) of
                                      (h, Some e) \<Rightarrow> (put_heap st1 tn h, Inl e)
                                    | (h, None) \<Rightarrow>
                                        (put_heap st1 tn h,
                                         Inr (CommandOk (int (length matches))
                                           (nat_digits (length matches) @ '' rows updated''))))))))))"

subsection \<open>DELETE\<close>

fun tombstone_all :: "heap \<Rightarrow> row list \<Rightarrow> heap \<times> error option" where
  "tombstone_all h [] = (h, None)"
| "tombstone_all h (r # rs) =
     (case py_rid r of
        Inl e \<Rightarrow> (h, Some e)
      | Inr rid \<Rightarrow> tombstone_all (tombstone h rid) rs)"

definition exec_delete :: "db \<Rightarrow> string \<Rightarrow> WhereClause option \<Rightarrow> db \<times> (error + result)" where
  "exec_delete st tn w =
     (case require_table (catalog st) tn of
        Inl e \<Rightarrow> (st, Inl e)
      | Inr t \<Rightarrow>
          (let st1 = open_heap st tn in
           case scan_active (data (heap_of st1 tn)) of
             Inl e \<Rightarrow> (st1, Inl e)
           | Inr existing \<Rightarrow>
               (case matching_rows tn w existing of
                  Inl e \<Rightarrow> (st1, Inl e)
                | Inr matches \<Rightarrow>
                    (case tombstone_all (heap_of st1 tn) matches of
                       (h, Some e) \<Rightarrow> (put_heap st1 tn h, Inl e)
                     | (h, None) \<Rightarrow>
                         (put_heap st1 tn h,
                          Inr (CommandOk (int (length matches))
                            (nat_digits (length matches) @ '' rows deleted'')))))))"

subsection \<open>CREATE TABLE, CREATE INDEX and dispatch\<close>

definition save_catalog :: "db \<Rightarrow> db" where
  "save_catalog st = st\<lparr>catalog_file := Some (save (catalog st))\<rparr>"

definition exec_create_table :: "db \<Rightarrow> string \<Rightarrow> ColumnDef list \<Rightarrow> db \<times> (error + result)" where
  "exec_create_table st tn cols =
     (case validate_create_table (catalog st) tn cols of
        Some e \<Rightarrow> (st, Inl e)
      | None \<Rightarrow>
          (let t = \<lparr>table_name = tn, columns = cols, indexes = []\<rparr>;
               st1 = st\<lparr>catalog := (catalog st)\<lparr>tables := dict_set (tables (catalog st)) tn t\<rparr>\<rparr>;
               st2 = save_catalog st1
           in (open_heap st2 tn, Inr (CommandOk 0 (''Table created: '' @ tn)))))"

definition exec_create_index :: "db \<Rightarrow> string \<Rightarrow> string \<Rightarrow> string \<Rightarrow> db \<times> (error + result)" where
  "exec_create_index st iname tn cname =
     (case validate_create_index (catalog st) iname tn cname of
        Some e \<Rightarrow> (st, Inl e)
      | None \<Rightarrow>
          (let idx = \<lparr>index_name = iname, index_table = tn, index_column = cname\<rparr>;
               st1 = st\<lparr>catalog := (catalog st)
                        \<lparr>global_indexes := dict_set (global_indexes (catalog st)) iname idx\<rparr>\<rparr>
           in case require_table (catalog st1) tn of
                Inl e \<Rightarrow> (st1, Inl e)
              | Inr t \<Rightarrow>
                  (let t' = t\<lparr>indexes := dict_set (indexes t) iname idx\<rparr>;
                       st2 = st1\<lparr>catalog := (catalog st1)
                                \<lparr>tables := dict_set (tables (catalog st1)) tn t'\<rparr>\<rparr>
                   in (save_catalog st2, Inr (CommandOk 0 (''Index created: '' @ iname @ '' ON '' @ tn @ ''('' @ cname @ '')''))))))"

fun execute :: "db \<Rightarrow> Statement \<Rightarrow> db \<times> (error + result)" where
  "execute st (CreateTable tn cols) = exec_create_table st tn cols"
| "execute st (CreateIndex iname tn cname) = exec_create_index st iname tn cname"
| "execute st (Insert tn cols vals) = exec_insert st tn cols vals"
| "execute st (Select cols tn joins w) = exec_select st cols tn joins w"
| "execute st (Update tn asgs w) = exec_update st tn asgs w"
| "execute st (Delete tn w) = exec_delete st tn w"

text \<open>The rows a scan of table \<open>tn\<close> yields in state \<open>st\<close> (through \<^verbatim>\<open>HeapTable.open\<close>).\<close>

definition scan_table :: "db \<Rightarrow> string \<Rightarrow> error + row list" where
  "scan_table st tn = scan_active (data (heap_of st tn))"


text \<open>INSERT and UPDATE are the statements C1 speaks of.\<close>

fun is_insert_or_update :: "Statement \<Rightarrow> bool" where
  "is_insert_or_update (Insert tn cols vals) = True"
| "is_insert_or_update (Update tn asgs w) = True"
| "is_insert_or_update _ = False"

subsection \<open>Example schemas and states\<close>

definition users_columns :: "ColumnDef list" where
  "users_columns =
     [\<lparr>col_name = ''id'', col_type = \<lparr>type_name = ''INTEGER'', params = []\<rparr>,
        not_null = False, unique = False, primary_key = True\<rparr>,
      \<lparr>col_name = ''email'', col_type = \<lparr>type_name = ''VARCHAR'', params = [255]\<rparr>,
        not_null = False, unique = False, primary_key = False\<rparr>]"

text \<open>
  \<^verbatim>\<open>CREATE TABLE users (id INTEGER PRIMARY KEY, email VARCHAR(255));
  INSERT INTO users (id, email) VALUES (1, 'a@b.com');\<close>
\<close>

definition users_db :: db where
  "users_db =
     fst (execute (fst (execute init_db (CreateTable ''users'' users_columns)))
            (Insert ''users'' [''id'', ''email''] [VInt 1, VStr ''a@b.com'']))"

definition a_column :: ColumnDef where
  "a_column = \<lparr>col_name = ''a'', col_type = \<lparr>type_name = ''INTEGER'', params = []\<rparr>,
                not_null = False, unique = False, primary_key = False\<rparr>"

text \<open>\<^verbatim>\<open>CREATE TABLE t (a INTEGER);\<close> with no rows.\<close>

definition empty_t_db :: db where
  "empty_t_db = fst (execute init_db (CreateTable ''t'' [a_column]))"

text \<open>\<^verbatim>\<open>WHERE u.a = 1\<close>: a qualifier that is not the target table \<^verbatim>\<open>t\<close>.\<close>

definition where_u_a :: WhereClause where
  "where_u_a =
     [\<lparr>cond_left = \<lparr>column = ''a'', table = Some ''u''\<rparr>, cond_op = ''='', cond_right = VInt 1\<rparr>]"

subsection \<open>Heap files under the executor\<close>

lemma heap_of_open [simp]: "heap_of (open_heap st tn) t = heap_of st t"
  by (simp add: open_heap_def put_heap_def heap_of_def)

lemma heap_of_put: "heap_of (put_heap st tn h) t = (if t = tn then h else heap_of st t)"
  by (simp add: put_heap_def heap_of_def)

lemma catalog_open [simp]: "catalog (open_heap st tn) = catalog st"
  by (simp add: open_heap_def put_heap_def)

lemma catalog_put [simp]: "catalog (put_heap st tn h) = catalog st"
  by (simp add: put_heap_def)

subsection \<open>Batch atomicity\<close>

text \<open>
  The rids the apply loop of UPDATE converts were converted once already when the
  candidates were built, so the loop cannot fail between its writes.
\<close>

lemma apply_updates_no_error:
  "build_candidates t asgs matches = Inr (rids, new_rows) \<Longrightarrow>
   snd (apply_updates h (zip matches new_rows)) = None"
proof (induction matches arbitrary: rids new_rows h)
  case Nil
  then show ?case by simp
next
  case (Cons old olds)
  then show ?case
    by (auto split: sum.splits option.splits prod.splits)
qed

lemma apply_updates_error_False:
  "build_candidates t asgs matches = Inr (rids, new_rows) \<Longrightarrow>
   apply_updates h (zip matches new_rows) = (h', Some e) \<Longrightarrow> False"
  using apply_updates_no_error[of t asgs matches rids new_rows h] by simp

lemma exec_insert_atomic:
  "exec_insert st tn cols vals = (st', Inl e) \<Longrightarrow>
   heap_of st' t = heap_of st t \<and> catalog st' = catalog st"
  unfolding exec_insert_def insert_built_row_def Let_def
  by (auto split: sum.splits if_splits option.splits)

lemma exec_update_atomic:
  "exec_update st tn asgs w = (st', Inl e) \<Longrightarrow>
   heap_of st' t = heap_of st t \<and> catalog st' = catalog st"
  unfolding exec_update_def Let_def
  by (auto split: sum.splits if_splits option.splits prod.splits dest: apply_updates_error_False)

text \<open>
  C1. An INSERT or UPDATE that fails, with whatever error, has appended nothing: every
  table's log and \<^verbatim>\<open>next_rid\<close> are as before the call, so \<^verbatim>\<open>scan_active\<close> yields the same
  sequence of rows as before; the catalog is unchanged too.
\<close>

theorem failed_insert_update_appends_nothing:
  assumes "is_insert_or_update stmt" and "execute st stmt = (st', Inl e)"
  shows "heap_of st' t = heap_of st t \<and> scan_table st' t = scan_table st t \<and>
         catalog st' = catalog st"
proof (cases stmt)
  case (Insert tn cols vals)
  with assms(2) have "exec_insert st tn cols vals = (st', Inl e)" by simp
  from exec_insert_atomic[OF this] show ?thesis by (simp add: scan_table_def)
next
  case (Update tn asgs w)
  with assms(2) have "exec_update st tn asgs w = (st', Inl e)" by simp
  from exec_update_atomic[OF this] show ?thesis by (simp add: scan_table_def)
qed (use assms(1) in simp_all)

text \<open>
  Witness: on the \<^verbatim>\<open>users\<close> table holding the row with \<^verbatim>\<open>id = 1\<close>, inserting
  \<^verbatim>\<open>id = 1\<close> again fails with ConstraintError and the scan is unchanged.
\<close>

theorem failed_insert_update_appends_nothing_witness:
  "snd (execute users_db (Insert ''users'' [''id'', ''email''] [VInt 1, VStr ''dup@x''])) =
     Inl (ConstraintError ''PRIMARY KEY constraint failed: duplicate value'') \<and>
   scan_table (fst (execute users_db (Insert ''users'' [''id'', ''email''] [VInt 1, VStr ''dup@x''])))
     ''users'' = scan_table users_db ''users'' \<and>
   scan_table users_db ''users'' =
     Inr [[(''_rid'', VInt 1), (''id'', VInt 1), (''email'', VStr ''a@b.com'')]]"
proof -
  let ?stmt = "Insert ''users'' [''id'', ''email''] [VInt 1, VStr ''dup@x'']"
  let ?e = "ConstraintError ''PRIMARY KEY constraint failed: duplicate value''"
  have fails: "snd (execute users_db ?stmt) = Inl ?e"
    by code_simp
  then have run: "execute users_db ?stmt = (fst (execute users_db ?stmt), Inl ?e)"
    by (simp add: prod_eq_iff)
  have before: "scan_table users_db ''users'' =
      Inr [[(''_rid'', VInt 1), (''id'', VInt 1), (''email'', VStr ''a@b.com'')]]"
    by code_simp
  from failed_insert_update_appends_nothing[OF _ run, of "''users''"] fails before
  show ?thesis by simp
qed

subsection \<open>Qualified columns in WHERE\<close>

text \<open>
  The qualifier of a WHERE column is checked while a row is being matched: a mismatch
  raises as soon as a live row reaches the condition.
\<close>

lemma conditions_match_bad_qualifier:
  "table (cond_left cond) = Some q \<Longrightarrow> q \<noteq> tn \<Longrightarrow> cond_op cond = ''='' \<Longrightarrow>
   conditions_match tn r (cond # conds) = Inl (ExecutionError ''column qualifier does not match'')"
  by (simp add: check_condition_def resolve_col_def)

text \<open>
  C6 at its failing input. On the empty table \<^verbatim>\<open>t\<close>, \<^verbatim>\<open>SELECT * FROM t WHERE u.a = 1\<close>,
  \<^verbatim>\<open>UPDATE t SET a = 2 WHERE u.a = 1\<close> and \<^verbatim>\<open>DELETE FROM t WHERE u.a = 1\<close> all succeed:
  with no live row the WHERE clause is never evaluated.
\<close>

theorem where_qualifier_unchecked_without_rows:
  "snd (execute empty_t_db (Select None ''t'' [] (Some where_u_a))) = Inr (QueryResult [''a''] []) \<and>
   snd (execute empty_t_db (Update ''t'' [\<lparr>asg_column = ''a'', asg_value = VInt 2\<rparr>] (Some where_u_a)))
     = Inr (CommandOk 0 ''0 rows updated'') \<and>
   snd (execute empty_t_db (Delete ''t'' (Some where_u_a))) = Inr (CommandOk 0 ''0 rows deleted'')"
  by code_simp

text \<open>
  The same happens with live rows when an earlier condition fails for every row:
  \<^verbatim>\<open>INSERT INTO t (a) VALUES (1); SELECT * FROM t WHERE a = 2 AND u.a = 1\<close> returns no rows.
\<close>

lemma where_qualifier_unchecked_after_false:
  "snd (execute (fst (execute empty_t_db (Insert ''t'' [''a''] [VInt 1])))
          (Select None ''t'' []
             (Some (\<lparr>cond_left = \<lparr>column = ''a'', table = None\<rparr>, cond_op = ''='',
                      cond_right = VInt 2\<rparr> # where_u_a))))
   = Inr (QueryResult [''a''] [])"
  by code_simp

text \<open>The select list, by contrast, is checked before any row is read.\<close>

lemma select_list_qualifier_checked:
  "snd (execute empty_t_db (Select (Some [\<lparr>column = ''a'', table = Some ''u''\<rparr>]) ''t'' [] None))
   = Inl (ExecutionError ''column qualifier does not match'')"
  by code_simp

subsection \<open>INSERT with a repeated column\<close>

text \<open>
  A column list with its earlier duplicates dropped: of the pairs \<^verbatim>\<open>zip(columns, values)\<close>
  only the last one per column is kept.
\<close>

fun keep_last :: "(string \<times> 'v) list \<Rightarrow> (string \<times> 'v) list" where
  "keep_last [] = []"
| "keep_last (p # ps) = (if fst p \<in> fst ` set ps then keep_last ps else p # keep_last ps)"

lemma keys_keep_last: "fst ` set (keep_last ps) = fst ` set ps"
  by (induction ps) auto

lemma map_of_rev_keep_last: "map_of (rev (keep_last ps)) = map_of (rev ps)"
proof (induction ps)
  case Nil
  then show ?case by simp
next
  case (Cons p ps)
  show ?case
  proof (cases "fst p \<in> fst ` set ps")
    case True
    then have "fst p \<in> dom (map_of (rev ps))"
      by (simp add: dom_map_of_conv_image_fst)
    then have "map_of [p] ++ map_of (rev ps) = map_of (rev ps)"
      by (auto simp: map_add_def fun_eq_iff split: option.splits)
    with True Cons show ?thesis by simp
  next
    case False
    with Cons show ?thesis by simp
  qed
qed

lemma map_of_foldl_dict_set:
  "map_of (foldl (\<lambda>d (c, v). dict_set d c v) d ps) k =
     (case map_of (rev ps) k of None \<Rightarrow> map_of d k | Some v \<Rightarrow> Some v)"
proof (induction ps arbitrary: d)
  case Nil
  then show ?case by simp
next
  case (Cons p ps)
  obtain c v where p: "p = (c, v)" by (cases p)
  show ?case
    by (simp add: p Cons map_of_dict_set map_add_def split: option.splits)
qed

lemma dict_set_present:
  "distinct (map fst d) \<Longrightarrow> k \<in> fst ` set d \<Longrightarrow>
   dict_set d k v = map (\<lambda>(k', v0). (k', if k' = k then v else v0)) d"
proof (induction d)
  case Nil
  then show ?case by simp
next
  case (Cons p d)
  obtain k' v' where p: "p = (k', v')" by (cases p)
  show ?case
  proof (cases "k' = k")
    case True
    with Cons.prems p have "k \<notin> fst ` set d" by auto
    then have "map (\<lambda>(k', v0). (k', if k' = k then v else v0)) d = d"
      by (induction d) auto
    with True p show ?thesis by simp
  next
    case False
    with Cons p show ?thesis by auto
  qed
qed

lemma foldl_dict_set_present:
  "distinct (map fst d) \<Longrightarrow> fst ` set ps \<subseteq> fst ` set d \<Longrightarrow>
   foldl (\<lambda>d (c, v). dict_set d c v) d ps =
     map (\<lambda>(k, v0). (k, case map_of (rev ps) k of None \<Rightarrow> v0 | Some v \<Rightarrow> v)) d"
proof (induction ps arbitrary: d)
  case Nil
  then show ?case by simp
next
  case (Cons p ps)
  obtain c v where p: "p = (c, v)" by (cases p)
  from Cons.prems p have c: "c \<in> fst ` set d" by auto
  have d': "distinct (map fst (dict_set d c v))"
    using Cons.prems(1) by (rule distinct_dict_set)
  have k': "fst ` set ps \<subseteq> fst ` set (dict_set d c v)"
    using Cons.prems(2) by (auto simp: keys_dict_set)
  have "foldl (\<lambda>d (c, v). dict_set d c v) d (p # ps) =
        foldl (\<lambda>d (c, v). dict_set d c v) (dict_set d c v) ps"
    by (simp add: p)
  also have "\<dots> = map (\<lambda>(k, v0). (k, case map_of (rev ps) k of None \<Rightarrow> v0 | Some v \<Rightarrow> v))
                      (dict_set d c v)"
    by (rule Cons.IH[OF d' k'])
  also have "\<dots> = map (\<lambda>(k, v0). (k, case map_of (rev (p # ps)) k of None \<Rightarrow> v0 | Some v \<Rightarrow> v)) d"
    by (simp add: dict_set_present[OF Cons.prems(1) c] p map_add_def split: option.splits prod.splits)
  finally show ?case .
qed

lemma distinct_null_row_aux:
  "distinct (map fst d) \<Longrightarrow> distinct (map fst (foldl (\<lambda>d c. dict_set d (col_name c) VNull) d cs))"
  by (induction cs arbitrary: d) (auto simp: distinct_dict_set)

lemma keys_null_row_aux:
  "fst ` set (foldl (\<lambda>d c. dict_set d (col_name c) VNull) d cs) = fst ` set d \<union> col_name ` set cs"
  by (induction cs arbitrary: d) (auto simp: keys_dict_set)

lemma distinct_null_row: "distinct (map fst (null_row t))"
  by (simp add: null_row_def distinct_null_row_aux)

lemma keys_null_row: "fst ` set (null_row t) = column_names t"
  by (simp add: null_row_def keys_null_row_aux column_names_def)

lemma insert_row_known:
  "set cols \<subseteq> column_names t \<Longrightarrow>
   insert_row t cols vals =
     map (\<lambda>(k, v0). (k, case map_of (rev (zip cols vals)) k of None \<Rightarrow> v0 | Some v \<Rightarrow> v)) (null_row t)"
  unfolding insert_row_def
  by (rule foldl_dict_set_present[OF distinct_null_row])
     (auto simp: keys_null_row dest!: set_zip_leftD)

lemma last_occurrence:
  "length cols = length vals \<Longrightarrow> i < length cols \<Longrightarrow>
   \<forall>j. i < j \<and> j < length cols \<longrightarrow> cols ! j \<noteq> cols ! i \<Longrightarrow>
   map_of (rev (zip cols vals)) (cols ! i) = Some (vals ! i)"
proof (induction cols vals arbitrary: i rule: list_induct2)
  case Nil
  then show ?case by simp
next
  case (Cons c cols v vals)
  show ?case
  proof (cases i)
    case 0
    with Cons.prems have "\<forall>j < length cols. cols ! j \<noteq> c" by auto
    then have "c \<notin> set cols" by (auto simp: in_set_conv_nth)
    with Cons.hyps have "map_of (rev (zip cols vals)) c = None"
      by (auto simp: map_of_eq_None_iff dest: set_zip_leftD)
    with 0 show ?thesis by (simp add: map_add_def)
  next
    case (Suc k)
    with Cons.prems have k: "k < length cols" "\<forall>j. k < j \<and> j < length cols \<longrightarrow> cols ! j \<noteq> cols ! k"
      by auto
    from Cons.IH[OF k] Suc show ?thesis by (simp add: map_add_def)
  qed
qed


definition b_column :: ColumnDef where
  "b_column = \<lparr>col_name = ''b'', col_type = \<lparr>type_name = ''INTEGER'', params = []\<rparr>,
                not_null = False, unique = False, primary_key = False\<rparr>"

definition ab_db :: db where
  "ab_db = fst (execute init_db (CreateTable ''t'' [a_column, b_column]))"

lemma map_of_null_row_aux:
  "map_of (foldl (\<lambda>d c. dict_set d (col_name c) VNull) d cs) k =
     (if k \<in> col_name ` set cs then Some VNull else map_of d k)"
  by (induction cs arbitrary: d) (auto simp: map_of_dict_set)

lemma map_of_null_row:
  "map_of (null_row t) k = (if k \<in> column_names t then Some VNull else None)"
  by (simp add: null_row_def map_of_null_row_aux column_names_def)

lemma get_insert_row:
  "get (insert_row t cols vals) c =
     (case map_of (rev (zip cols vals)) c of None \<Rightarrow> VNull | Some v \<Rightarrow> v)"
  by (simp add: get_def insert_row_def map_of_foldl_dict_set map_of_null_row split: option.splits)

lemma keys_zip: "length xs = length ys \<Longrightarrow> fst ` set (zip xs ys) = set xs"
proof -
  assume "length xs = length ys"
  then have "map fst (zip xs ys) = xs" by simp
  then have "set (map fst (zip xs ys)) = set xs" by simp
  then show ?thesis by (simp only: set_map)
qed

lemma insert_row_keep_last:
  assumes "length cols = length vals" and "set cols \<subseteq> column_names t"
  shows "insert_row t (map fst (keep_last (zip cols vals))) (map snd (keep_last (zip cols vals)))
         = insert_row t cols vals"
proof -
  let ?kl = "keep_last (zip cols vals)"
  have "set (map fst ?kl) = set cols"
    using keys_zip[OF assms(1)] keys_keep_last[of "zip cols vals"] by simp
  with assms(2) have known: "set (map fst ?kl) \<subseteq> column_names t" by simp
  show ?thesis
    unfolding insert_row_known[OF known] insert_row_known[OF assms(2)]
    by (simp add: zip_map_fst_snd map_of_rev_keep_last)
qed

lemma exec_insert_keep_last:
  assumes "length cols = length vals"
  shows "exec_insert st tn (map fst (keep_last (zip cols vals))) (map snd (keep_last (zip cols vals)))
         = exec_insert st tn cols vals"
proof (cases "require_table (catalog st) tn")
  case (Inl e)
  then show ?thesis by (simp add: exec_insert_def)
next
  case (Inr t)
  let ?kl = "keep_last (zip cols vals)"
  have keys: "set (map fst ?kl) = set cols"
    using keys_zip[OF assms] keys_keep_last[of "zip cols vals"] by simp
  show ?thesis
  proof (cases "set cols \<subseteq> column_names t")
    case True
    have ex: "list_ex (\<lambda>c. c \<notin> column_names t) (map fst ?kl) = list_ex (\<lambda>c. c \<notin> column_names t) cols"
      using keys by (simp add: list_ex_iff)
    from insert_row_keep_last[OF assms True] ex Inr show ?thesis
      by (simp add: exec_insert_def)
  next
    case False
    with keys Inr show ?thesis
      by (auto simp: exec_insert_def list_ex_iff)
  qed
qed

text \<open>
  C10. A column named more than once in the column list of an INSERT is not rejected:
  the statement runs exactly as the statement that keeps only the last occurrence of
  every column (same result, same final state), and the row that is validated and
  stored gives the column the value paired with its last occurrence.
\<close>

theorem insert_repeated_column_last_value_wins:
  assumes "length cols = length vals" and "i < length cols"
    and "\<forall>j. i < j \<and> j < length cols \<longrightarrow> cols ! j \<noteq> cols ! i"
  shows "get (insert_row t cols vals) (cols ! i) = vals ! i \<and>
         execute st (Insert tn cols vals) =
           execute st (Insert tn (map fst (keep_last (zip cols vals)))
                                 (map snd (keep_last (zip cols vals))))"
  using last_occurrence[OF assms] exec_insert_keep_last[OF assms(1)]
  by (simp add: get_insert_row)

text \<open>
  Witness: \<^verbatim>\<open>INSERT INTO t (a, b, a) VALUES (1, 2, 3)\<close> on \<^verbatim>\<open>t(a INTEGER, b INTEGER)\<close>
  succeeds and stores \<^verbatim>\<open>a = 3, b = 2\<close>.
\<close>

theorem insert_repeated_column_witness:
  "get (insert_row \<lparr>table_name = ''t'', columns = [a_column, b_column], indexes = []\<rparr>
          [''a'', ''b'', ''a''] [VInt 1, VInt 2, VInt 3]) ''a'' = VInt 3 \<and>
   execute ab_db (Insert ''t'' [''a'', ''b'', ''a''] [VInt 1, VInt 2, VInt 3]) =
     execute ab_db (Insert ''t'' [''b'', ''a''] [VInt 2, VInt 3]) \<and>
   snd (execute ab_db (Insert ''t'' [''a'', ''b'', ''a''] [VInt 1, VInt 2, VInt 3])) =
     Inr (CommandOk 1 ''1 row inserted'') \<and>
   scan_table (fst (execute ab_db (Insert ''t'' [''a'', ''b'', ''a''] [VInt 1, VInt 2, VInt 3]))) ''t'' =
     Inr [[(''_rid'', VInt 1), (''a'', VInt 3), (''b'', VInt 2)]]"
proof -
  have ok: "snd (execute ab_db (Insert ''t'' [''a'', ''b'', ''a''] [VInt 1, VInt 2, VInt 3])) =
     Inr (CommandOk 1 ''1 row inserted'')"
    by code_simp
  have sc: "scan_table (fst (execute ab_db (Insert ''t'' [''a'', ''b'', ''a''] [VInt 1, VInt 2, VInt 3]))) ''t'' =
     Inr [[(''_rid'', VInt 1), (''a'', VInt 3), (''b'', VInt 2)]]"
    by code_simp
  from insert_repeated_column_last_value_wins[of "[''a'', ''b'', ''a'']" "[VInt 1, VInt 2, VInt 3]" 2
      "\<lparr>table_name = ''t'', columns = [a_column, b_column], indexes = []\<rparr>" ab_db "''t''"]
  have "get (insert_row \<lparr>table_name = ''t'', columns = [a_column, b_column], indexes = []\<rparr>
          [''a'', ''b'', ''a''] [VInt 1, VInt 2, VInt 3]) ''a'' = VInt 3 \<and>
   execute ab_db (Insert ''t'' [''a'', ''b'', ''a''] [VInt 1, VInt 2, VInt 3]) =
     execute ab_db (Insert ''t'' [''b'', ''a''] [VInt 2, VInt 3])"
    by (simp add: nth_Cons')
  with ok sc show ?thesis by simp
qed


section \<open>Primary-key uniqueness\<close>

text \<open>The rows a scan of a heap without corrupt lines yields.\<close>

definition live_rows :: "heap \<Rightarrow> row list" where
  "live_rows h = filter (live (records (data h))) (records (data h))"

text \<open>The values a list of rows holds in one column.\<close>

definition pk_values :: "string \<Rightarrow> row list \<Rightarrow> val list" where
  "pk_values pk rows = map (\<lambda>r. get r pk) rows"

lemma scan_active_live_rows:
  "Corrupt \<notin> set (data h) \<Longrightarrow> scan_active (data h) = Inr (live_rows h)"
  by (simp add: scan_active_eq live_rows_def)

lemma rid_live_mono: "rid_live (A \<union> B) r \<Longrightarrow> rid_live A r"
  by (auto simp: rid_live_def split: option.splits)

lemma live_append_left: "live (rs @ ext) r \<Longrightarrow> live rs r"
  by (auto simp: live_def dest: rid_live_mono)

lemma live_rows_extend:
  assumes "data h' = data h @ ext"
  shows "live_rows h' = filter (live (records (data h'))) (live_rows h @ records ext)"
proof -
  let ?P = "live (records (data h'))"
  have "\<And>r. ?P r \<Longrightarrow> live (records (data h)) r"
    using assms by (auto dest: live_append_left)
  then have "filter ?P (records (data h)) = filter ?P (filter (live (records (data h))) (records (data h)))"
    by (auto intro: filter_cong)
  with assms show ?thesis by (simp add: live_rows_def)
qed

lemma py_eq_refl [simp]: "py_eq v v"
  by (cases v) auto

lemma not_py_in: "\<not> py_in v vs \<Longrightarrow> v \<notin> set vs"
  by (auto simp: py_in_def list_ex_iff)

lemma pk_loop_None:
  "pk_loop pk E seen nrs = None \<Longrightarrow>
   distinct (pk_values pk nrs) \<and> set (pk_values pk nrs) \<inter> (set E \<union> set seen) = {}"
proof (induction nrs arbitrary: seen)
  case Nil
  then show ?case by (simp add: pk_values_def)
next
  case (Cons nr nrs)
  from Cons.prems have a: "\<not> py_in (get nr pk) E" "\<not> py_in (get nr pk) seen"
    and b: "pk_loop pk E (get nr pk # seen) nrs = None"
    by (auto split: if_splits)
  from Cons.IH[OF b] a show ?case
    by (auto simp: pk_values_def dest: not_py_in)
qed

lemma as_int_py_int: "as_int v = Some n \<Longrightarrow> py_int v = Inr n"
  by (cases v) auto

lemma rid_of_py_rid: "rid_of r = Some n \<Longrightarrow> py_rid r = Inr n"
  by (auto simp: rid_of_def py_rid_def get_def as_int_py_int split: option.splits)

lemma existing_kept_eq:
  "\<forall>r \<in> set rows. rid_of r \<noteq> None \<Longrightarrow> existing_kept rows ex = Inr (filter (rid_live ex) rows)"
proof (induction rows)
  case Nil
  then show ?case by simp
next
  case (Cons r rows)
  then obtain n where n: "rid_of r = Some n" by auto
  then have "py_int (get r ''_rid'') = Inr n" by (simp add: rid_of_def as_int_py_int)
  with Cons n show ?case by (simp add: rid_live_def rid_of_def)
qed

lemma live_rows_int_rid: "r \<in> set (live_rows h) \<Longrightarrow> rid_of r \<noteq> None"
  by (auto simp: live_rows_def live_def rid_live_def rid_of_def split: option.splits)

lemma build_candidates_eq:
  "build_candidates t asgs ms = Inr (rids, cs) \<Longrightarrow>
   cs = map (candidate t asgs) ms \<and> map py_rid ms = map Inr rids"
proof (induction ms arbitrary: rids cs)
  case Nil
  then show ?case by simp
next
  case (Cons m ms)
  then show ?case by (auto split: sum.splits option.splits prod.splits)
qed


text \<open>The record \<^verbatim>\<open>tombstone\<close> appends.\<close>

definition tombstone_record :: "int \<Rightarrow> row" where
  "tombstone_record rid = [(''_op'', VStr ''DELETE''), (''_rid'', VInt rid)]"

lemma tombstone_data: "data (tombstone h rid) = data h @ [Rec (tombstone_record rid)]"
  by (simp add: tombstone_def append_line_def tombstone_record_def)

lemma is_tombstone_record [simp]: "is_tombstone (tombstone_record rid)"
  by (simp add: is_tombstone_def tombstone_record_def get_def)

lemma rid_of_tombstone_record [simp]: "rid_of (tombstone_record rid) = Some rid"
  by (simp add: rid_of_def tombstone_record_def get_def)

lemma insert_heap_data: "data (fst (insert_heap h r)) = data h @ [Rec (stored (next_rid h) r)]"
  by (simp add: insert_heap_allocates)

lemma tombstone_all_effect:
  "tombstone_all h rs = (h', res) \<Longrightarrow>
   \<exists>ext. data h' = data h @ ext \<and> Corrupt \<notin> set ext \<and> (\<forall>r \<in> set (records ext). is_tombstone r)"
proof (induction rs arbitrary: h)
  case Nil
  then show ?case by simp
next
  case (Cons r rs)
  show ?case
  proof (cases "py_rid r")
    case (Inl e)
    with Cons.prems show ?thesis by simp
  next
    case (Inr n)
    with Cons.prems have "tombstone_all (tombstone h n) rs = (h', res)" by simp
    from Cons.IH[OF this] obtain ext where
      "data h' = data (tombstone h n) @ ext" "Corrupt \<notin> set ext" "\<forall>r \<in> set (records ext). is_tombstone r"
      by blast
    then show ?thesis
      by (intro exI[of _ "Rec (tombstone_record n) # ext"]) (simp add: tombstone_data)
  qed
qed

text \<open>What a successful apply loop of UPDATE appended.\<close>

lemma apply_updates_effect:
  "apply_updates h pairs = (h', None) \<Longrightarrow>
   \<exists>ext ns. data h' = data h @ ext \<and> Corrupt \<notin> set ext \<and> length ns = length pairs \<and>
     filter (\<lambda>r. \<not> is_tombstone r) (records ext) =
       filter (\<lambda>r. \<not> is_tombstone r) (map (\<lambda>(n, c). stored n c) (zip ns (map snd pairs))) \<and>
     (\<forall>old \<in> set (map fst pairs). \<exists>n. py_rid old = Inr n \<and> n \<in> tombstoned_rids (records ext))"
proof (induction pairs arbitrary: h)
  case Nil
  then show ?case by simp
next
  case (Cons p pairs)
  obtain old cand where p: "p = (old, cand)" by (cases p)
  show ?case
  proof (cases "py_rid old")
    case (Inl e)
    with Cons.prems p show ?thesis by simp
  next
    case (Inr n)
    let ?h1 = "tombstone (fst (insert_heap h cand)) n"
    from Cons.prems p Inr have "apply_updates ?h1 pairs = (h', None)" by simp
    from Cons.IH[OF this] obtain ext ns where e:
      "data h' = data ?h1 @ ext" "Corrupt \<notin> set ext" "length ns = length pairs"
      "filter (\<lambda>r. \<not> is_tombstone r) (records ext) =
         filter (\<lambda>r. \<not> is_tombstone r) (map (\<lambda>(n, c). stored n c) (zip ns (map snd pairs)))"
      "\<forall>old \<in> set (map fst pairs). \<exists>n. py_rid old = Inr n \<and> n \<in> tombstoned_rids (records ext)"
      by blast
    let ?ext = "Rec (stored (next_rid h) cand) # Rec (tombstone_record n) # ext"
    have d: "data h' = data h @ ?ext"
      using e(1) by (simp add: tombstone_data insert_heap_data)
    have n: "n \<in> tombstoned_rids (records ?ext)"
      by (simp add: tombstoned_rids_Cons)
    have sub: "tombstoned_rids (records ext) \<subseteq> tombstoned_rids (records ?ext)"
      by (auto simp: tombstoned_rids_Cons)
    show ?thesis
      apply (rule exI[of _ ?ext], rule exI[of _ "next_rid h # ns"])
      using d e(2,3,4,5) n sub p Inr
      apply (auto simp: )
      done
  qed
qed


text \<open>
  The enforcement rule for the primary key: a batch that passes has pairwise different
  key values, none of which is the key of a live row outside \<^verbatim>\<open>exclude_rids\<close>.
\<close>

lemma enforce_constraints_batch_pk:
  assumes "enforce_constraints_batch t existing new_rows ex = None"
    and "\<forall>r \<in> set existing. rid_of r \<noteq> None"
    and "primary_key_column t = Some pk"
  shows "distinct (pk_values pk new_rows) \<and>
         set (pk_values pk new_rows) \<inter> set (pk_values pk (filter (rid_live ex) existing)) = {}"
proof -
  from assms(1) existing_kept_eq[OF assms(2), of ex]
  have "check_primary_key t (filter (rid_live ex) existing) new_rows = None"
    by (auto simp: enforce_constraints_batch_def split: option.splits)
  with assms(3) have "pk_loop pk (pk_values pk (filter (rid_live ex) existing)) [] new_rows = None"
    by (simp add: check_primary_key_def pk_values_def)
  from pk_loop_None[OF this] show ?thesis by simp
qed

lemma foldl_dict_set_keys:
  "fst ` set (foldl (\<lambda>d x. dict_set d (f x) (g x)) d xs) = fst ` set d \<union> f ` set xs"
  by (induction xs arbitrary: d) (auto simp: keys_dict_set)

lemma foldl_dict_set_distinct:
  "distinct (map fst d) \<Longrightarrow> distinct (map fst (foldl (\<lambda>d x. dict_set d (f x) (g x)) d xs))"
  by (induction xs arbitrary: d) (auto simp: distinct_dict_set)

lemma candidate_keys: "column_names t \<subseteq> fst ` set (candidate t asgs old)"
  by (auto simp: candidate_def foldl_dict_set_keys column_names_def)

lemma candidate_distinct: "distinct (map fst (candidate t asgs old))"
  by (simp add: candidate_def foldl_dict_set_distinct)

lemma insert_row_keys: "column_names t \<subseteq> fst ` set (insert_row t cols vals)"
  unfolding insert_row_def case_prod_unfold
  by (simp add: foldl_dict_set_keys keys_null_row)

lemma insert_row_distinct: "distinct (map fst (insert_row t cols vals))"
  unfolding insert_row_def case_prod_unfold
  by (simp add: foldl_dict_set_distinct distinct_null_row)

lemma primary_key_column_name:
  "primary_key_column t = Some pk \<Longrightarrow> pk \<in> column_names t"
proof -
  assume a: "primary_key_column t = Some pk"
  then obtain c cs where f: "filter primary_key (columns t) = c # cs" and pk: "pk = col_name c"
    by (auto simp: primary_key_column_def split: list.splits)
  from f have "c \<in> set (filter primary_key (columns t))" by simp
  then have "c \<in> set (columns t)" by simp
  with pk show ?thesis by (auto simp: column_names_def)
qed

text \<open>
  The invariant of the reachable states: heap files exist only for tables of the
  catalog, no log holds a corrupt line, and the live rows of a table with a primary key
  have pairwise different key values.
\<close>

definition db_invariant :: "db \<Rightarrow> bool" where
  "db_invariant st =
     ((\<forall>tn. map_of (tables (catalog st)) tn = None \<longrightarrow> heaps st tn = None) \<and>
      (\<forall>tn. Corrupt \<notin> set (data (heap_of st tn))) \<and>
      (\<forall>tn t pk. map_of (tables (catalog st)) tn = Some t \<longrightarrow> primary_key_column t = Some pk \<longrightarrow>
         distinct (pk_values pk (live_rows (heap_of st tn)))))"

lemma invariant_put_heap:
  assumes "db_invariant st" and "map_of (tables (catalog st)) tn = Some t"
    and "Corrupt \<notin> set (data h)"
    and "\<And>pk. primary_key_column t = Some pk \<Longrightarrow> distinct (pk_values pk (live_rows h))"
  shows "db_invariant (put_heap st tn h)"
  using assms unfolding db_invariant_def
  by (auto simp: heap_of_put) (auto simp: put_heap_def)

lemma invariant_open_heap:
  assumes "db_invariant st" and "map_of (tables (catalog st)) tn = Some t"
  shows "db_invariant (open_heap st tn)"
  unfolding open_heap_def
  using assms by (intro invariant_put_heap[OF assms]) (auto simp: db_invariant_def)

lemma require_table_Some: "require_table cat tn = Inr t \<Longrightarrow> map_of (tables cat) tn = Some t"
  by (auto simp: require_table_def split: option.splits)

lemma distinct_pk_filter:
  "distinct (pk_values pk rows) \<Longrightarrow> distinct (pk_values pk (filter P rows))"
  unfolding pk_values_def by (rule distinct_map_filter)

lemma rid_live_empty: "rid_of r \<noteq> None \<Longrightarrow> rid_live {} r"
  by (auto simp: rid_live_def rid_of_def)

lemma insert_built_row_invariant:
  assumes inv: "db_invariant st" and t: "map_of (tables (catalog st)) tn = Some t"
    and keys: "column_names t \<subseteq> fst ` set r" and dist: "distinct (map fst r)"
  shows "db_invariant (fst (insert_built_row st tn t r))"
proof -
  let ?st1 = "open_heap st tn"
  let ?h = "heap_of st tn"
  have inv1: "db_invariant ?st1" using inv t by (rule invariant_open_heap)
  have t1: "map_of (tables (catalog ?st1)) tn = Some t" using t by simp
  from inv have nc: "Corrupt \<notin> set (data ?h)" by (simp add: db_invariant_def)
  then have scan: "scan_active (data ?h) = Inr (live_rows ?h)" by (rule scan_active_live_rows)
  show ?thesis
  proof (cases "validate_insert_types t r")
    case (Some e)
    with inv show ?thesis by (simp add: insert_built_row_def)
  next
    case None
    show ?thesis
    proof (cases "enforce_constraints_batch t (live_rows ?h) [r] {}")
      case (Some e)
      with None scan inv1 show ?thesis by (simp add: insert_built_row_def Let_def)
    next
      case enf: None
      let ?h' = "fst (insert_heap ?h r)"
      have d: "data ?h' = data ?h @ [Rec (stored (next_rid ?h) r)]" by (rule insert_heap_data)
      have "db_invariant (put_heap ?st1 tn ?h')"
      proof (rule invariant_put_heap[OF inv1 t1])
        show "Corrupt \<notin> set (data ?h')" using nc d by simp
      next
        fix pk assume pk: "primary_key_column t = Some pk"
        have ir: "\<forall>x \<in> set (live_rows ?h). rid_of x \<noteq> None"
          by (auto dest: live_rows_int_rid)
        from enforce_constraints_batch_pk[OF enf ir pk]
        have "get r pk \<notin> set (pk_values pk (filter (rid_live {}) (live_rows ?h)))"
          by (simp add: pk_values_def)
        moreover have "filter (rid_live {}) (live_rows ?h) = live_rows ?h"
          using ir by (auto intro!: filter_True rid_live_empty)
        ultimately have new: "get r pk \<notin> set (pk_values pk (live_rows ?h))" by simp
        from pk keys have "pk \<in> fst ` set r" by (auto dest: primary_key_column_name)
        from get_stored_key[OF dist this] have g: "get (stored (next_rid ?h) r) pk = get r pk" .
        from inv t pk have "distinct (pk_values pk (live_rows ?h))"
          by (simp add: db_invariant_def)
        with new g have dd: "distinct (pk_values pk (live_rows ?h @ [stored (next_rid ?h) r]))"
          by (simp add: pk_values_def)
        have lr: "live_rows ?h' =
            filter (live (records (data ?h'))) (live_rows ?h @ [stored (next_rid ?h) r])"
          using live_rows_extend[OF d] by simp
        show "distinct (pk_values pk (live_rows ?h'))"
          by (simp only: lr distinct_pk_filter[OF dd])
      qed
      with None scan enf show ?thesis by (simp add: insert_built_row_def Let_def)
    qed
  qed
qed


lemma pk_values_stored:
  assumes "length ns = length cands"
    and "\<And>n c. c \<in> set cands \<Longrightarrow> get (stored n c) pk = get c pk"
  shows "pk_values pk (map (\<lambda>(n, c). stored n c) (zip ns cands)) = pk_values pk cands"
  using assms
proof (induction ns cands rule: list_induct2)
  case Nil
  then show ?case by (simp add: pk_values_def)
next
  case (Cons n ns c cands)
  then show ?case by (simp add: pk_values_def)
qed

lemma update_keeps_distinct:
  assumes ex: "distinct (pk_values pk existing)"
    and new: "distinct (pk_values pk cands)"
    and disj: "set (pk_values pk cands) \<inter> set (pk_values pk (filter Q existing)) = {}"
    and len: "length ns = length cands"
    and st: "\<And>n c. c \<in> set cands \<Longrightarrow> get (stored n c) pk = get c pk"
    and PQ: "\<And>r. r \<in> set existing \<Longrightarrow> P r \<Longrightarrow> Q r"
    and Pnt: "\<And>r. P r \<Longrightarrow> \<not> is_tombstone r"
    and recs: "filter (\<lambda>r. \<not> is_tombstone r) recs =
               filter (\<lambda>r. \<not> is_tombstone r) (map (\<lambda>(n, c). stored n c) (zip ns cands))"
  shows "distinct (pk_values pk (filter P (existing @ recs)))"
proof -
  let ?nt = "\<lambda>r. \<not> is_tombstone r"
  let ?new = "filter ?nt (map (\<lambda>(n, c). stored n c) (zip ns cands))"
  have a: "filter P existing = filter P (filter Q existing)"
    using PQ by (auto intro: filter_cong)
  have "filter P recs = filter P (filter ?nt recs)"
    using Pnt by (auto intro: filter_cong)
  then have b: "filter P recs = filter P ?new" by (simp only: recs)
  have eq: "filter P (existing @ recs) = filter P (filter Q existing @ ?new)"
    using a b by simp
  have all: "distinct (pk_values pk (map (\<lambda>(n, c). stored n c) (zip ns cands)))"
    using new by (simp only: pk_values_stored[OF len st])
  have d1: "distinct (pk_values pk ?new)"
    using all by (rule distinct_pk_filter)
  have "set (pk_values pk ?new) \<subseteq> set (pk_values pk (map (\<lambda>(n, c). stored n c) (zip ns cands)))"
    unfolding pk_values_def set_map by (rule image_mono) simp
  then have sub: "set (pk_values pk ?new) \<subseteq> set (pk_values pk cands)"
    by (simp only: pk_values_stored[OF len st])
  have d2: "distinct (pk_values pk (filter Q existing))"
    using ex by (rule distinct_pk_filter)
  have "distinct (pk_values pk (filter Q existing @ ?new))"
    using d1 d2 sub disj by (auto simp: pk_values_def)
  then show ?thesis
    by (simp only: eq distinct_pk_filter)
qed

lemma matching_rows_subset:
  "matching_rows tn w rows = Inr ms \<Longrightarrow> set ms \<subseteq> set rows"
proof (induction rows arbitrary: ms)
  case Nil
  then show ?case by simp
next
  case (Cons r rows)
  then show ?case by (auto split: sum.splits if_splits)
qed

lemma exec_update_state:
  assumes "require_table (catalog st) tn = Inr t"
    and "scan_active (data (heap_of st tn)) = Inr existing"
  shows "fst (exec_update st tn asgs w) = open_heap st tn \<or>
         (\<exists>matches rids new_rows h'.
            matching_rows tn w existing = Inr matches \<and>
            build_candidates t asgs matches = Inr (rids, new_rows) \<and>
            enforce_constraints_batch t existing new_rows (set rids) = None \<and>
            apply_updates (heap_of st tn) (zip matches new_rows) = (h', None) \<and>
            fst (exec_update st tn asgs w) = put_heap (open_heap st tn) tn h')"
  using assms unfolding exec_update_def Let_def
  by (auto split: sum.splits if_splits option.splits prod.splits dest: apply_updates_error_False)


lemma exec_update_invariant:
  assumes inv: "db_invariant st"
  shows "db_invariant (fst (exec_update st tn asgs w))"
proof (cases "require_table (catalog st) tn")
  case (Inl e)
  with inv show ?thesis by (simp add: exec_update_def)
next
  case (Inr t)
  let ?st1 = "open_heap st tn"
  let ?h = "heap_of st tn"
  have t: "map_of (tables (catalog st)) tn = Some t" using Inr by (rule require_table_Some)
  have inv1: "db_invariant ?st1" using inv t by (rule invariant_open_heap)
  have t1: "map_of (tables (catalog ?st1)) tn = Some t" using t by simp
  from inv have nc: "Corrupt \<notin> set (data ?h)" by (simp add: db_invariant_def)
  then have scan: "scan_active (data ?h) = Inr (live_rows ?h)" by (rule scan_active_live_rows)
  have ir: "\<forall>x \<in> set (live_rows ?h). rid_of x \<noteq> None"
    by (auto dest: live_rows_int_rid)
  from exec_update_state[OF Inr scan, of asgs w] show ?thesis
  proof
    assume "fst (exec_update st tn asgs w) = open_heap st tn"
    with inv1 show ?thesis by simp
  next
    assume "\<exists>matches rids new_rows h'.
            matching_rows tn w (live_rows ?h) = Inr matches \<and>
            build_candidates t asgs matches = Inr (rids, new_rows) \<and>
            enforce_constraints_batch t (live_rows ?h) new_rows (set rids) = None \<and>
            apply_updates ?h (zip matches new_rows) = (h', None) \<and>
            fst (exec_update st tn asgs w) = put_heap (open_heap st tn) tn h'"
    then obtain matches rids new_rows h' where
      m: "matching_rows tn w (live_rows ?h) = Inr matches" and
      b: "build_candidates t asgs matches = Inr (rids, new_rows)" and
      enf: "enforce_constraints_batch t (live_rows ?h) new_rows (set rids) = None" and
      ap: "apply_updates ?h (zip matches new_rows) = (h', None)" and
      res: "fst (exec_update st tn asgs w) = put_heap (open_heap st tn) tn h'"
      by blast
    from build_candidates_eq[OF b] have cands: "new_rows = map (candidate t asgs) matches"
      and rids: "map py_rid matches = map Inr rids" by simp_all
    from cands have len: "length matches = length new_rows" by simp
    from rids have lenr: "length rids = length matches"
      using length_map[of py_rid matches] length_map[of Inr rids] by simp
    from apply_updates_effect[OF ap] obtain ext ns where
      d: "data h' = data ?h @ ext" and nce: "Corrupt \<notin> set ext" and
      lns: "length ns = length (zip matches new_rows)" and
      recs: "filter (\<lambda>r. \<not> is_tombstone r) (records ext) =
         filter (\<lambda>r. \<not> is_tombstone r)
           (map (\<lambda>(n, c). stored n c) (zip ns (map snd (zip matches new_rows))))" and
      tomb: "\<forall>old \<in> set (map fst (zip matches new_rows)).
               \<exists>n. py_rid old = Inr n \<and> n \<in> tombstoned_rids (records ext)"
      by blast
    from len have z1: "map fst (zip matches new_rows) = matches"
      and z2: "map snd (zip matches new_rows) = new_rows" by simp_all
    have "db_invariant (put_heap ?st1 tn h')"
    proof (rule invariant_put_heap[OF inv1 t1])
      show "Corrupt \<notin> set (data h')" using nc nce d by simp
    next
      fix pk assume pk: "primary_key_column t = Some pk"
      let ?P = "live (records (data h'))"
      from enforce_constraints_batch_pk[OF enf ir pk]
      have new: "distinct (pk_values pk new_rows)"
        and disj: "set (pk_values pk new_rows) \<inter>
                   set (pk_values pk (filter (rid_live (set rids)) (live_rows ?h))) = {}"
        by simp_all
      from inv t pk have ex: "distinct (pk_values pk (live_rows ?h))"
        by (simp add: db_invariant_def)
      have st: "\<And>n c. c \<in> set new_rows \<Longrightarrow> get (stored n c) pk = get c pk"
      proof -
        fix n c assume "c \<in> set new_rows"
        then obtain old where c: "c = candidate t asgs old" using cands by auto
        from pk have "pk \<in> fst ` set c"
          using candidate_keys[of t asgs old] c by (auto dest: primary_key_column_name)
        with candidate_distinct[of t asgs old] c show "get (stored n c) pk = get c pk"
          by (simp add: get_stored_key)
      qed
      have PQ: "\<And>r. r \<in> set (live_rows ?h) \<Longrightarrow> ?P r \<Longrightarrow> rid_live (set rids) r"
      proof -
        fix r assume r: "r \<in> set (live_rows ?h)" and P: "?P r"
        from r obtain k where k: "rid_of r = Some k" using ir by auto
        from P d k have notin: "k \<notin> tombstoned_rids (records ext)"
          by (auto simp: live_def rid_live_def rid_of_def)
        have "k \<notin> set rids"
        proof
          assume "k \<in> set rids"
          then obtain i where i: "i < length rids" "rids ! i = k" by (auto simp: in_set_conv_nth)
          with lenr have im: "i < length matches" by simp
          from rids i im have "py_rid (matches ! i) = Inr k"
            using nth_map[of i matches py_rid] nth_map[of i rids Inr] by simp
          moreover from im have "matches ! i \<in> set matches" by simp
          ultimately show False using tomb notin unfolding z1 by fastforce
        qed
        with k show "rid_live (set rids) r" by (simp add: rid_live_def rid_of_def)
      qed
      have Pnt: "\<And>r. ?P r \<Longrightarrow> \<not> is_tombstone r" by (simp add: live_def)
      from lns len have len': "length ns = length new_rows" by simp
      from recs have recs': "filter (\<lambda>r. \<not> is_tombstone r) (records ext) =
         filter (\<lambda>r. \<not> is_tombstone r) (map (\<lambda>(n, c). stored n c) (zip ns new_rows))"
        by (simp only: z2)
      from update_keeps_distinct[OF ex new disj len' st PQ Pnt recs']
      show "distinct (pk_values pk (live_rows h'))"
        by (simp only: live_rows_extend[OF d])
    qed
    with res show ?thesis by simp
  qed
qed


lemma exec_insert_invariant:
  assumes "db_invariant st"
  shows "db_invariant (fst (exec_insert st tn cols vals))"
proof (cases "require_table (catalog st) tn")
  case (Inl e)
  with assms show ?thesis by (simp add: exec_insert_def)
next
  case (Inr t)
  have t: "map_of (tables (catalog st)) tn = Some t" using Inr by (rule require_table_Some)
  from insert_built_row_invariant[OF assms t insert_row_keys insert_row_distinct] assms Inr
  show ?thesis by (simp add: exec_insert_def)
qed

lemma exec_select_invariant:
  assumes "db_invariant st"
  shows "db_invariant (fst (exec_select st cols tn joins w))"
proof (cases "require_table (catalog st) tn")
  case (Inl e)
  with assms show ?thesis by (simp add: exec_select_def)
next
  case (Inr t)
  have t: "map_of (tables (catalog st)) tn = Some t" using Inr by (rule require_table_Some)
  from invariant_open_heap[OF assms t] assms Inr show ?thesis
    by (auto simp: exec_select_def Let_def split: sum.splits)
qed

lemma exec_delete_invariant:
  assumes inv: "db_invariant st"
  shows "db_invariant (fst (exec_delete st tn w))"
proof (cases "require_table (catalog st) tn")
  case (Inl e)
  with inv show ?thesis by (simp add: exec_delete_def)
next
  case (Inr t)
  let ?st1 = "open_heap st tn"
  let ?h = "heap_of st tn"
  have t: "map_of (tables (catalog st)) tn = Some t" using Inr by (rule require_table_Some)
  have inv1: "db_invariant ?st1" using inv t by (rule invariant_open_heap)
  have t1: "map_of (tables (catalog ?st1)) tn = Some t" using t by simp
  from inv have nc: "Corrupt \<notin> set (data ?h)" by (simp add: db_invariant_def)
  have put: "db_invariant (put_heap ?st1 tn h')" if "tombstone_all ?h ms = (h', res)" for ms h' res
  proof -
    from tombstone_all_effect[OF that] obtain ext where
      d: "data h' = data ?h @ ext" and nce: "Corrupt \<notin> set ext"
      and tombs: "\<forall>r \<in> set (records ext). is_tombstone r" by blast
    show ?thesis
    proof (rule invariant_put_heap[OF inv1 t1])
      show "Corrupt \<notin> set (data h')" using nc nce d by simp
    next
      fix pk assume pk: "primary_key_column t = Some pk"
      from inv t pk have ex: "distinct (pk_values pk (live_rows ?h))"
        by (simp add: db_invariant_def)
      have "filter (live (records (data h'))) (records ext) = []"
        using tombs by (auto simp: filter_empty_conv live_def)
      then have "live_rows h' = filter (live (records (data h'))) (live_rows ?h)"
        using live_rows_extend[OF d] by simp
      with ex show "distinct (pk_values pk (live_rows h'))"
        by (simp only: distinct_pk_filter)
    qed
  qed
  from inv1 put Inr show ?thesis
    by (auto simp: exec_delete_def Let_def split: sum.splits prod.splits option.splits)
qed

lemma live_rows_new_heap [simp]: "live_rows new_heap = []"
  by (simp add: live_rows_def new_heap_def)

lemma data_new_heap [simp]: "data new_heap = []"
  by (simp add: new_heap_def)

lemma exec_create_table_invariant:
  assumes inv: "db_invariant st"
  shows "db_invariant (fst (exec_create_table st tn cols))"
proof (cases "validate_create_table (catalog st) tn cols")
  case (Some e)
  with inv show ?thesis by (simp add: exec_create_table_def)
next
  case None
  then have "tn \<notin> fst ` set (tables (catalog st))"
    by (auto simp: validate_create_table_def split: if_splits)
  then have "map_of (tables (catalog st)) tn = None"
    by (simp add: map_of_eq_None_iff)
  with inv have nofile: "heaps st tn = None" by (simp add: db_invariant_def)
  from inv nofile None show ?thesis
    unfolding exec_create_table_def db_invariant_def
    by (auto simp: Let_def save_catalog_def open_heap_def put_heap_def heap_of_def
        map_of_dict_set pk_values_def)
qed

lemma exec_create_index_invariant:
  assumes inv: "db_invariant st"
  shows "db_invariant (fst (exec_create_index st iname tn cname))"
proof (cases "validate_create_index (catalog st) iname tn cname")
  case (Some e)
  with inv show ?thesis by (simp add: exec_create_index_def)
next
  case None
  then obtain t where t: "require_table (catalog st) tn = Inr t"
    by (auto simp: validate_create_index_def split: if_splits sum.splits)
  then have m: "map_of (tables (catalog st)) tn = Some t" by (rule require_table_Some)
  have pk: "primary_key_column (t\<lparr>indexes := x\<rparr>) = primary_key_column t" for x
    by (simp add: primary_key_column_def)
  from inv None t m show ?thesis
    unfolding exec_create_index_def db_invariant_def
    by (auto simp: Let_def save_catalog_def require_table_def heap_of_def map_of_dict_set pk
        split: option.splits if_splits)
qed

lemma execute_invariant: "db_invariant st \<Longrightarrow> db_invariant (fst (execute st stmt))"
  by (cases stmt)
     (simp_all add: exec_create_table_invariant exec_create_index_invariant exec_insert_invariant
        exec_select_invariant exec_update_invariant exec_delete_invariant)

text \<open>
  A session: the statements are executed in order on the shared state, each from the
  state its predecessor left, whether it succeeded or raised.
\<close>

fun run :: "db \<Rightarrow> Statement list \<Rightarrow> db" where
  "run st [] = st"
| "run st (stmt # stmts) = run (fst (execute st stmt)) stmts"

lemma run_invariant: "db_invariant st \<Longrightarrow> db_invariant (run st stmts)"
  by (induction stmts arbitrary: st) (simp_all add: execute_invariant)

lemma init_db_invariant: "db_invariant init_db"
  by (simp add: db_invariant_def init_db_def empty_catalog_def heap_of_def)


definition users_meta :: TableMeta where
  "users_meta = \<lparr>table_name = ''users'', columns = users_columns, indexes = []\<rparr>"

text \<open>
  \<^verbatim>\<open>CREATE TABLE users (...); INSERT (1, 'a@b.com'); INSERT (2, 'c@d.com');
  INSERT (1, 'dup@x') -- rejected; UPDATE users SET email = 'new@x' WHERE id = 1;
  DELETE FROM users WHERE id = 2; INSERT (2, 'back@x')\<close>
\<close>

definition users_script :: "Statement list" where
  "users_script =
     [CreateTable ''users'' users_columns,
      Insert ''users'' [''id'', ''email''] [VInt 1, VStr ''a@b.com''],
      Insert ''users'' [''id'', ''email''] [VInt 2, VStr ''c@d.com''],
      Insert ''users'' [''id'', ''email''] [VInt 1, VStr ''dup@x''],
      Update ''users'' [\<lparr>asg_column = ''email'', asg_value = VStr ''new@x''\<rparr>]
        (Some [\<lparr>cond_left = \<lparr>column = ''id'', table = None\<rparr>, cond_op = ''='',
                 cond_right = VInt 1\<rparr>]),
      Delete ''users''
        (Some [\<lparr>cond_left = \<lparr>column = ''id'', table = None\<rparr>, cond_op = ''='',
                 cond_right = VInt 2\<rparr>]),
      Insert ''users'' [''id'', ''email''] [VInt 2, VStr ''back@x'']]"

text \<open>
  C2. In every state reached from the empty database by executing statements, a table
  whose schema has a primary-key column can be scanned, and the primary-key values of
  the rows \<^verbatim>\<open>scan_active\<close> yields are pairwise different. The enforcement rule behind it:
  a batch of candidates passes \<^verbatim>\<open>_enforce_constraints_batch\<close> only if its key values
  differ from one another and from the keys of the live rows outside \<^verbatim>\<open>exclude_rids\<close>.
\<close>

theorem primary_key_unique_in_reachable_states:
  assumes "map_of (tables (catalog (run init_db stmts))) tn = Some t"
    and "primary_key_column t = Some pk"
  shows "(\<exists>rows. scan_table (run init_db stmts) tn = Inr rows \<and>
                 distinct (map (\<lambda>r. get r pk) rows)) \<and>
         (\<forall>existing new_rows ex.
            enforce_constraints_batch t existing new_rows ex = None \<longrightarrow>
            (\<forall>r \<in> set existing. rid_of r \<noteq> None) \<longrightarrow>
            distinct (pk_values pk new_rows) \<and>
            set (pk_values pk new_rows) \<inter> set (pk_values pk (filter (rid_live ex) existing)) = {})"
proof -
  let ?st = "run init_db stmts"
  have inv: "db_invariant ?st"
    using init_db_invariant by (rule run_invariant)
  then have "Corrupt \<notin> set (data (heap_of ?st tn))"
    by (simp add: db_invariant_def)
  then have scan: "scan_table ?st tn = Inr (live_rows (heap_of ?st tn))"
    by (simp add: scan_table_def scan_active_live_rows)
  from inv assms have "distinct (pk_values pk (live_rows (heap_of ?st tn)))"
    by (simp add: db_invariant_def)
  with scan have first: "\<exists>rows. scan_table ?st tn = Inr rows \<and> distinct (map (\<lambda>r. get r pk) rows)"
    by (simp add: pk_values_def)
  from enforce_constraints_batch_pk[OF _ _ assms(2)] first show ?thesis
    by blast
qed

text \<open>
  Witness: after the script above the \<^verbatim>\<open>users\<close> table, whose primary key is \<^verbatim>\<open>id\<close>,
  is in the catalog, and its scan yields rows with pairwise different ids.
\<close>

theorem primary_key_unique_witness:
  "map_of (tables (catalog (run init_db users_script))) ''users'' = Some users_meta \<and>
   primary_key_column users_meta = Some ''id'' \<and>
   (\<exists>rows. scan_table (run init_db users_script) ''users'' = Inr rows \<and>
            distinct (map (\<lambda>r. get r ''id'') rows))"
proof -
  have h1: "map_of (tables (catalog (run init_db users_script))) ''users'' = Some users_meta"
    by code_simp
  have h2: "primary_key_column users_meta = Some ''id''"
    by code_simp
  from primary_key_unique_in_reachable_states[OF h1 h2] h1 h2 show ?thesis
    by blast
qed

text \<open>The scan of that state, for the record.\<close>

lemma users_script_scan:
  "scan_table (run init_db users_script) ''users'' =
     Inr [[(''_rid'', VInt 3), (''id'', VInt 1), (''email'', VStr ''new@x'')],
          [(''_rid'', VInt 4), (''id'', VInt 2), (''email'', VStr ''back@x'')]]"
  by code_simp


section \<open>Lexer: \<^verbatim>\<open>simpledb/lexer.py\<close>\<close>

datatype TokenType =
    T_EOF
  | T_IDENT | T_INT | T_STRING | T_BOOL
  | T_LPAREN | T_RPAREN | T_COMMA | T_SEMI | T_EQ | T_STAR | T_DOT
  | T_CREATE | T_TABLE | T_INDEX | T_INSERT | T_INTO | T_VALUES | T_SELECT | T_FROM
  | T_WHERE | T_AND | T_UPDATE | T_SET | T_DELETE | T_JOIN | T_ON
  | T_PRIMARY | T_KEY | T_UNIQUE | T_NOT | T_NULL

definition KEYWORDS :: "TokenType dict" where
  "KEYWORDS =
     [(''CREATE'', T_CREATE), (''TABLE'', T_TABLE), (''INDEX'', T_INDEX),
      (''INSERT'', T_INSERT), (''INTO'', T_INTO), (''VALUES'', T_VALUES),
      (''SELECT'', T_SELECT), (''FROM'', T_FROM), (''WHERE'', T_WHERE), (''AND'', T_AND),
      (''UPDATE'', T_UPDATE), (''SET'', T_SET), (''DELETE'', T_DELETE), (''JOIN'', T_JOIN),
      (''ON'', T_ON), (''PRIMARY'', T_PRIMARY), (''KEY'', T_KEY), (''UNIQUE'', T_UNIQUE),
      (''NOT'', T_NOT), (''NULL'', T_NULL)]"

text \<open>
  A token's \<^verbatim>\<open>value\<close> is \<^verbatim>\<open>None\<close>, an integer, a string or a boolean; for a keyword it
  is the uppercased text.
\<close>

record Token =
  tok_type :: TokenType
  lexeme :: string
  tok_value :: val
  pos :: position

text \<open>
  The character classes \<^verbatim>\<open>str.isspace\<close>, \<^verbatim>\<open>str.isdecimal\<close>, \<^verbatim>\<open>str.isdigit\<close>,
  \<^verbatim>\<open>str.isalpha\<close> and \<^verbatim>\<open>str.isalnum\<close> on the code points below 256. Beyond ASCII,
  U+0085 and U+00A0 are spaces, the superscripts U+00B2, U+00B3 and U+00B9 are digits
  (but not decimal digits), U+00AA, U+00B5, U+00BA and U+00C0 to U+00FF without the
  multiplication and division signs are letters, and the fractions U+00BC to U+00BE are
  alphanumeric.
\<close>

definition is_space :: "char \<Rightarrow> bool" where
  "is_space c =
     (let n = (of_char c :: nat) in
      n = 32 \<or> (9 \<le> n \<and> n \<le> 13) \<or> (28 \<le> n \<and> n \<le> 31) \<or> n = 133 \<or> n = 160)"

definition is_decimal :: "char \<Rightarrow> bool" where
  "is_decimal c = (let n = (of_char c :: nat) in 48 \<le> n \<and> n \<le> 57)"

definition is_digit :: "char \<Rightarrow> bool" where
  "is_digit c = (let n = (of_char c :: nat) in is_decimal c \<or> n = 178 \<or> n = 179 \<or> n = 185)"

definition is_alpha :: "char \<Rightarrow> bool" where
  "is_alpha c =
     (let n = (of_char c :: nat) in
      (65 \<le> n \<and> n \<le> 90) \<or> (97 \<le> n \<and> n \<le> 122) \<or> n = 170 \<or> n = 181 \<or> n = 186 \<or>
      (192 \<le> n \<and> n \<le> 214) \<or> (216 \<le> n \<and> n \<le> 246) \<or> (248 \<le> n \<and> n \<le> 255))"

definition is_alnum :: "char \<Rightarrow> bool" where
  "is_alnum c =
     (let n = (of_char c :: nat) in is_alpha c \<or> is_digit c \<or> (188 \<le> n \<and> n \<le> 190))"

definition squote :: char where
  "squote = CHR 0x27"

text \<open>\<^verbatim>\<open>advance\<close>: a line feed starts a new line, any other character moves one column.\<close>

definition advance1 :: "position \<Rightarrow> char \<Rightarrow> position" where
  "advance1 p ch =
     (if ch = CHR 0x0A then Position (line p + 1) 1 else Position (line p) (col p + 1))"

definition advance :: "position \<Rightarrow> string \<Rightarrow> position" where
  "advance p s = foldl advance1 p s"

text \<open>
  \<^verbatim>\<open>int(lex)\<close> on a run of decimal digits. (The interpreter's configurable limit on the
  length of a decimal string, 4300 digits by default, is not modelled.)
\<close>

definition digits_value :: "string \<Rightarrow> int" where
  "digits_value s = foldl (\<lambda>n c. 10 * n + (int (of_char c) - 48)) 0 s"

text \<open>
  The loop after an opening quote: the characters up to the next single quote, and the
  input after that quote; \<open>None\<close> when the input ends first.
\<close>

fun string_body :: "string \<Rightarrow> (string \<times> string) option" where
  "string_body [] = None"
| "string_body (c # cs) =
     (if c = squote then Some ([], cs)
      else (case string_body cs of None \<Rightarrow> None | Some (buf, rest) \<Rightarrow> Some (c # buf, rest)))"

definition symbol_type :: "char \<Rightarrow> TokenType option" where
  "symbol_type ch =
     (if ch = CHR ''('' then Some T_LPAREN
      else if ch = CHR '')'' then Some T_RPAREN
      else if ch = CHR '','' then Some T_COMMA
      else if ch = CHR '';'' then Some T_SEMI
      else if ch = CHR ''='' then Some T_EQ
      else if ch = CHR ''*'' then Some T_STAR
      else if ch = CHR ''.'' then Some T_DOT
      else None)"

definition word_token :: "string \<Rightarrow> position \<Rightarrow> Token" where
  "word_token lx start =
     (let up = upper lx in
      if up = ''TRUE'' then \<lparr>tok_type = T_BOOL, lexeme = lx, tok_value = VBool True, pos = start\<rparr>
      else if up = ''FALSE'' then \<lparr>tok_type = T_BOOL, lexeme = lx, tok_value = VBool False, pos = start\<rparr>
      else (case map_of KEYWORDS up of
              Some k \<Rightarrow> \<lparr>tok_type = k, lexeme = lx, tok_value = VStr up, pos = start\<rparr>
            | None \<Rightarrow> \<lparr>tok_type = T_IDENT, lexeme = lx, tok_value = VStr lx, pos = start\<rparr>))"

text \<open>
  One round of the main loop at character \<open>ch\<close> followed by \<open>cs\<close>: whitespace is
  skipped, a token is emitted, or the lexer raises. A run of digits that holds a
  superscript digit is no numeral, and \<^verbatim>\<open>int(lex)\<close> raises \<^verbatim>\<open>ValueError\<close> on it.
\<close>

datatype lex_step = Skip position string | Emit Token position string | Fail error

definition lex_char :: "position \<Rightarrow> char \<Rightarrow> string \<Rightarrow> lex_step" where
  "lex_char p ch cs =
     (if is_space ch then Skip (advance p [ch]) cs
      else case symbol_type ch of
        Some ty \<Rightarrow>
          Emit \<lparr>tok_type = ty, lexeme = [ch], tok_value = VNull, pos = p\<rparr> (advance p [ch]) cs
      | None \<Rightarrow>
          if ch = squote then
            (case string_body cs of
               None \<Rightarrow> Fail (SqlSyntaxError ''Unterminated string literal'' p)
             | Some (buf, rest) \<Rightarrow>
                 Emit \<lparr>tok_type = T_STRING, lexeme = squote # buf @ [squote],
                       tok_value = VStr buf, pos = p\<rparr>
                   (advance p (squote # buf @ [squote])) rest)
          else if is_digit ch then
            (let lx = ch # takeWhile is_digit cs in
             if list_all is_decimal lx then
               Emit \<lparr>tok_type = T_INT, lexeme = lx, tok_value = VInt (digits_value lx), pos = p\<rparr>
                 (advance p lx) (dropWhile is_digit cs)
             else Fail ValueError)
          else if is_alpha ch \<or> ch = CHR ''_'' then
            (let lx = ch # takeWhile (\<lambda>c. is_alnum c \<or> c = CHR ''_'') cs in
             Emit (word_token lx p) (advance p lx) (dropWhile (\<lambda>c. is_alnum c \<or> c = CHR ''_'') cs))
          else Fail (SqlSyntaxError ''Unexpected character'' p))"

lemma string_body_length: "string_body cs = Some (buf, rest) \<Longrightarrow> length rest < length cs"
  by (induction cs arbitrary: buf rest) (auto split: if_splits option.splits)

lemma lex_char_Skip_length: "lex_char p ch cs = Skip p' rest \<Longrightarrow> length rest \<le> length cs"
  by (auto simp: lex_char_def Let_def split: if_splits option.splits)

lemma lex_char_Emit_length: "lex_char p ch cs = Emit t p' rest \<Longrightarrow> length rest \<le> length cs"
  by (auto simp: lex_char_def Let_def length_dropWhile_le
      split: if_splits option.splits dest: string_body_length)

function tokenize_from :: "position \<Rightarrow> string \<Rightarrow> error + Token list" where
  "tokenize_from p [] = Inr [\<lparr>tok_type = T_EOF, lexeme = [], tok_value = VNull, pos = p\<rparr>]"
| "tokenize_from p (ch # cs) =
     (case lex_char p ch cs of
        Fail e \<Rightarrow> Inl e
      | Skip p' rest \<Rightarrow> tokenize_from p' rest
      | Emit t p' rest \<Rightarrow>
          (case tokenize_from p' rest of Inl e \<Rightarrow> Inl e | Inr ts \<Rightarrow> Inr (t # ts)))"
  by pat_completeness auto
termination
proof (relation "measure (\<lambda>(p, s). length s)")
  show "wf (measure (\<lambda>(p, s). length s))" by simp
next
  fix p ch cs p' rest
  assume "lex_char p ch cs = Skip p' rest"
  then have "length rest \<le> length cs" by (rule lex_char_Skip_length)
  then show "((p', rest), (p, ch # cs)) \<in> measure (\<lambda>(p, s). length s)" by simp
next
  fix p ch cs t p' rest
  assume "lex_char p ch cs = Emit t p' rest"
  then have "length rest \<le> length cs" by (rule lex_char_Emit_length)
  then show "((p', rest), (p, ch # cs)) \<in> measure (\<lambda>(p, s). length s)" by simp
qed

definition tokenize :: "string \<Rightarrow> error + Token list" where
  "tokenize sql = tokenize_from (Position 1 1) sql"


subsection \<open>String literals\<close>

lemma string_body_closed:
  assumes "squote \<notin> set s"
  shows "string_body (s @ squote # rest) = Some (s, rest)"
  using assms by (induction s) auto

lemma string_body_unterminated:
  "squote \<notin> set s \<Longrightarrow> string_body s = None"
  by (induction s) auto

lemma lex_char_quote:
  "lex_char p squote cs =
     (case string_body cs of
        None \<Rightarrow> Fail (SqlSyntaxError ''Unterminated string literal'' p)
      | Some (buf, rest) \<Rightarrow>
          Emit \<lparr>tok_type = T_STRING, lexeme = squote # buf @ [squote], tok_value = VStr buf, pos = p\<rparr>
            (advance p (squote # buf @ [squote])) rest)"
  by (simp add: lex_char_def is_space_def symbol_type_def squote_def)


text \<open>
  C9. A string literal has no escape syntax: from an opening quote the token's value is
  the text up to the next single quote, wherever that is, and lexing goes on right
  after it; with no further quote the lexer raises. So \<^verbatim>\<open>'a''b'\<close> is two adjacent
  STRING tokens \<^verbatim>\<open>a\<close> and \<^verbatim>\<open>b\<close>.
\<close>

theorem string_literal_runs_to_next_quote:
  assumes "squote \<notin> set s"
  shows "tokenize_from p (squote # s @ squote # rest) =
           (case tokenize_from (advance p (squote # s @ [squote])) rest of
              Inl e \<Rightarrow> Inl e
            | Inr ts \<Rightarrow>
                Inr (\<lparr>tok_type = T_STRING, lexeme = squote # s @ [squote], tok_value = VStr s,
                      pos = p\<rparr> # ts)) \<and>
         tokenize_from p (squote # s) = Inl (SqlSyntaxError ''Unterminated string literal'' p) \<and>
         tokenize (squote # ''a'' @ squote # squote # ''b'' @ [squote]) =
           Inr [\<lparr>tok_type = T_STRING, lexeme = squote # ''a'' @ [squote], tok_value = VStr ''a'',
                  pos = Position 1 1\<rparr>,
                \<lparr>tok_type = T_STRING, lexeme = squote # ''b'' @ [squote], tok_value = VStr ''b'',
                  pos = Position 1 4\<rparr>,
                \<lparr>tok_type = T_EOF, lexeme = [], tok_value = VNull, pos = Position 1 7\<rparr>]"
proof (intro conjI)
  show "tokenize_from p (squote # s @ squote # rest) =
           (case tokenize_from (advance p (squote # s @ [squote])) rest of
              Inl e \<Rightarrow> Inl e
            | Inr ts \<Rightarrow>
                Inr (\<lparr>tok_type = T_STRING, lexeme = squote # s @ [squote], tok_value = VStr s,
                      pos = p\<rparr> # ts))"
    by (simp add: lex_char_quote string_body_closed[OF assms])
  show "tokenize_from p (squote # s) = Inl (SqlSyntaxError ''Unterminated string literal'' p)"
    by (simp add: lex_char_quote string_body_unterminated[OF assms])
  show "tokenize (squote # ''a'' @ squote # squote # ''b'' @ [squote]) =
           Inr [\<lparr>tok_type = T_STRING, lexeme = squote # ''a'' @ [squote], tok_value = VStr ''a'',
                  pos = Position 1 1\<rparr>,
                \<lparr>tok_type = T_STRING, lexeme = squote # ''b'' @ [squote], tok_value = VStr ''b'',
                  pos = Position 1 4\<rparr>,
                \<lparr>tok_type = T_EOF, lexeme = [], tok_value = VNull, pos = Position 1 7\<rparr>]"
    by code_simp
qed

text \<open>Witness: the first literal of \<^verbatim>\<open>'a''b'\<close>.\<close>

theorem string_literal_witness:
  "squote \<notin> set ''a'' \<and>
   tokenize_from (Position 1 1) (squote # ''a'' @ squote # squote # ''b'' @ [squote]) =
     (case tokenize_from (Position 1 4) (squote # ''b'' @ [squote]) of
        Inl e \<Rightarrow> Inl e
      | Inr ts \<Rightarrow>
          Inr (\<lparr>tok_type = T_STRING, lexeme = squote # ''a'' @ [squote], tok_value = VStr ''a'',
                pos = Position 1 1\<rparr> # ts))"
proof -
  have h: "squote \<notin> set ''a''" by (simp add: squote_def)
  have a: "advance (Position 1 1) (squote # ''a'' @ [squote]) = Position 1 4"
    by code_simp
  from string_literal_runs_to_next_quote[OF h, of "Position 1 1" "squote # ''b'' @ [squote]"] h a
  show ?thesis by simp
qed


text \<open>
  The caller's helper \<^verbatim>\<open>sql_escape_string\<close> (\<^verbatim>\<open>finance_tracker/app/sql.py\<close>) doubles
  single quotes; the literal it builds for \<^verbatim>\<open>a'b\<close> does not lex back to one token.
\<close>

definition sql_escape_string :: "string \<Rightarrow> string" where
  "sql_escape_string v = concat (map (\<lambda>c. if c = squote then [squote, squote] else [c]) v)"

lemma escaped_literal_is_two_tokens:
  "map tok_value (projr (tokenize (squote # sql_escape_string (''a'' @ squote # ''b'') @ [squote]))) =
     [VStr ''a'', VStr ''b'', VNull]"
  by code_simp


section \<open>Parser: \<^verbatim>\<open>simpledb/parser.py\<close>, INSERT\<close>

text \<open>\<^verbatim>\<open>str(v)\<close>, \<^verbatim>\<open>bool(v)\<close> on token values.\<close>

definition py_str :: "val \<Rightarrow> string" where
  "py_str v =
     (case v of
        VStr s \<Rightarrow> s
      | VInt n \<Rightarrow> (if n < 0 then CHR ''-'' # nat_digits (nat (- n)) else nat_digits (nat n))
      | VBool b \<Rightarrow> (if b then ''True'' else ''False'')
      | VNull \<Rightarrow> ''None'')"

definition py_bool :: "val \<Rightarrow> bool" where
  "py_bool v =
     (case v of VBool b \<Rightarrow> b | VInt n \<Rightarrow> n \<noteq> 0 | VStr s \<Rightarrow> s \<noteq> [] | VNull \<Rightarrow> False)"

text \<open>
  The parser reads a fixed token list at index \<open>i\<close>. Past the end \<^verbatim>\<open>peek\<close> returns the
  last token (the EOF token of a tokenized input); on an empty list \<^verbatim>\<open>tokens[-1]\<close> raises.
  Every step returns its result with the next index.
\<close>

definition peek :: "Token list \<Rightarrow> nat \<Rightarrow> error + Token" where
  "peek ts i =
     (if i < length ts then Inr (ts ! i)
      else if ts = [] then Inl IndexError
      else Inr (last ts))"

definition expect :: "Token list \<Rightarrow> nat \<Rightarrow> TokenType \<Rightarrow> string \<Rightarrow> error + (Token \<times> nat)" where
  "expect ts i ty msg =
     (case peek ts i of
        Inl e \<Rightarrow> Inl e
      | Inr t \<Rightarrow> if tok_type t \<noteq> ty then Inl (SqlSyntaxError msg (pos t)) else Inr (t, i + 1))"

definition match :: "Token list \<Rightarrow> nat \<Rightarrow> TokenType \<Rightarrow> error + (bool \<times> nat)" where
  "match ts i ty =
     (case peek ts i of
        Inl e \<Rightarrow> Inl e
      | Inr t \<Rightarrow> if tok_type t = ty then Inr (True, i + 1) else Inr (False, i))"

definition parse_literal :: "Token list \<Rightarrow> nat \<Rightarrow> error + (val \<times> nat)" where
  "parse_literal ts i =
     (case peek ts i of
        Inl e \<Rightarrow> Inl e
      | Inr t \<Rightarrow>
          if tok_type t = T_INT then
            (case py_int (tok_value t) of Inl e \<Rightarrow> Inl e | Inr n \<Rightarrow> Inr (VInt n, i + 1))
          else if tok_type t = T_STRING then Inr (VStr (py_str (tok_value t)), i + 1)
          else if tok_type t = T_BOOL then Inr (VBool (py_bool (tok_value t)), i + 1)
          else Inl (SqlSyntaxError '' literal (INT, STRING, BOOL)'' (pos t)))"

lemma match_True: "match ts i ty = Inr (True, j) \<Longrightarrow> j = i + 1 \<and> (\<exists>t. peek ts i = Inr t \<and> tok_type t = ty)"
  by (auto simp: match_def split: sum.splits if_splits)

lemma expect_Inr: "expect ts i ty msg = Inr (t, j) \<Longrightarrow> j = i + 1 \<and> peek ts i = Inr t \<and> tok_type t = ty"
  by (auto simp: expect_def split: sum.splits if_splits)

lemma parse_literal_Inr:
  "parse_literal ts i = Inr (v, j) \<Longrightarrow>
   j = i + 1 \<and> (\<exists>t. peek ts i = Inr t \<and> tok_type t \<in> {T_INT, T_STRING, T_BOOL})"
  by (auto simp: parse_literal_def split: sum.splits if_splits)

lemma peek_past_end: "length ts \<le> i \<Longrightarrow> peek ts (i + 1) = peek ts i"
  by (simp add: peek_def)

lemma two_tokens_inside:
  assumes "peek ts i = Inr t" and "peek ts (i + 1) = Inr t'" and "tok_type t \<noteq> tok_type t'"
  shows "i < length ts"
proof (rule ccontr)
  assume "\<not> i < length ts"
  then have "peek ts (i + 1) = peek ts i" by (simp add: peek_def)
  with assms show False by simp
qed

lemma ident_loop_progress:
  assumes "match ts i T_COMMA = Inr (True, j)" and "expect ts j T_IDENT msg = Inr (t, k)"
  shows "length ts - k < length ts - i"
proof -
  from match_True[OF assms(1)] obtain c where
    j: "j = i + 1" and c: "peek ts i = Inr c" "tok_type c = T_COMMA" by auto
  from expect_Inr[OF assms(2)] have k: "k = j + 1" and t: "peek ts j = Inr t" "tok_type t = T_IDENT"
    by auto
  from c t j have "i < length ts" using two_tokens_inside[of ts i c t] by auto
  with j k show ?thesis by simp
qed

lemma literal_loop_progress:
  assumes "match ts i T_COMMA = Inr (True, j)" and "parse_literal ts j = Inr (v, k)"
  shows "length ts - k < length ts - i"
proof -
  from match_True[OF assms(1)] obtain c where
    j: "j = i + 1" and c: "peek ts i = Inr c" "tok_type c = T_COMMA" by auto
  from parse_literal_Inr[OF assms(2)] obtain t where
    k: "k = j + 1" and t: "peek ts j = Inr t" "tok_type t \<in> {T_INT, T_STRING, T_BOOL}"
    by auto
  from c t j have "i < length ts" using two_tokens_inside[of ts i c t] by auto
  with j k show ?thesis by simp
qed

function more_idents :: "Token list \<Rightarrow> nat \<Rightarrow> error + (string list \<times> nat)" where
  "more_idents ts i =
     (case match ts i T_COMMA of
        Inl e \<Rightarrow> Inl e
      | Inr (False, j) \<Rightarrow> Inr ([], j)
      | Inr (True, j) \<Rightarrow>
          (case expect ts j T_IDENT ''Expected column name'' of
             Inl e \<Rightarrow> Inl e
           | Inr (t, k) \<Rightarrow>
               (case more_idents ts k of
                  Inl e \<Rightarrow> Inl e
                | Inr (cols, l) \<Rightarrow> Inr (py_str (tok_value t) # cols, l))))"
  by pat_completeness auto
termination
  by (relation "measure (\<lambda>(ts, i). length ts - i)") (auto intro: ident_loop_progress)

function more_literals :: "Token list \<Rightarrow> nat \<Rightarrow> error + (val list \<times> nat)" where
  "more_literals ts i =
     (case match ts i T_COMMA of
        Inl e \<Rightarrow> Inl e
      | Inr (False, j) \<Rightarrow> Inr ([], j)
      | Inr (True, j) \<Rightarrow>
          (case parse_literal ts j of
             Inl e \<Rightarrow> Inl e
           | Inr (v, k) \<Rightarrow>
               (case more_literals ts k of
                  Inl e \<Rightarrow> Inl e
                | Inr (vals, l) \<Rightarrow> Inr (v # vals, l))))"
  by pat_completeness auto
termination
  by (relation "measure (\<lambda>(ts, i). length ts - i)") (auto intro: literal_loop_progress)

declare more_idents.simps [simp del]
declare more_literals.simps [simp del]

text \<open>Sequencing of parser steps: the first error raised ends the parse.\<close>

definition and_then :: "error + 'a \<Rightarrow> ('a \<Rightarrow> error + 'b) \<Rightarrow> error + 'b" where
  "and_then r f = (case r of Inl e \<Rightarrow> Inl e | Inr x \<Rightarrow> f x)"

text \<open>\<^verbatim>\<open>Parser.parse_insert\<close>, up to the comparison of the two lengths.\<close>

definition parse_insert_lists ::
  "Token list \<Rightarrow> nat \<Rightarrow> error + ((string \<times> string list \<times> val list) \<times> nat)" where
  "parse_insert_lists ts i0 =
     and_then (expect ts i0 T_INSERT ''Expected INSERT'') (\<lambda>(_, i1).
     and_then (expect ts i1 T_INTO ''Expected INTO after INSERT'') (\<lambda>(_, i2).
     and_then (expect ts i2 T_IDENT ''Expected table name'') (\<lambda>(tb, i3).
     and_then (expect ts i3 T_LPAREN ''Expected '(' before column list'') (\<lambda>(_, i4).
     and_then (expect ts i4 T_IDENT ''Expected column name'') (\<lambda>(c, i5).
     and_then (more_idents ts i5) (\<lambda>(cols, i6).
     and_then (expect ts i6 T_RPAREN ''Expected ')' after column list'') (\<lambda>(_, i7).
     and_then (expect ts i7 T_VALUES ''Expected VALUES'') (\<lambda>(_, i8).
     and_then (expect ts i8 T_LPAREN ''Expected '(' before values'') (\<lambda>(_, i9).
     and_then (parse_literal ts i9) (\<lambda>(v, i10).
     and_then (more_literals ts i10) (\<lambda>(vals, i11).
     and_then (expect ts i11 T_RPAREN ''Expected ')' after values'') (\<lambda>(_, i12).
       Inr ((py_str (tok_value tb), py_str (tok_value c) # cols, v # vals), i12)))))))))))))"

definition parse_insert :: "Token list \<Rightarrow> nat \<Rightarrow> error + (Statement \<times> nat)" where
  "parse_insert ts i =
     (case parse_insert_lists ts i of
        Inl e \<Rightarrow> Inl e
      | Inr ((tb, cols, vals), j) \<Rightarrow>
          if length cols \<noteq> length vals then
            (case peek ts j of
               Inl e \<Rightarrow> Inl e
             | Inr t \<Rightarrow>
                 Inl (SqlSyntaxError ''Number of columns does not match number of values'' (pos t)))
          else Inr (Insert tb cols vals, j))"


text \<open>Items after the first of a comma-separated list: each with the comma before it.\<close>

definition flat :: "(Token \<times> Token) list \<Rightarrow> Token list" where
  "flat ps = concat (map (\<lambda>(s, t). [s, t]) ps)"

text \<open>The value \<^verbatim>\<open>parse_literal\<close> reads from a literal token, if it is one.\<close>

definition literal_of :: "Token \<Rightarrow> val option" where
  "literal_of t =
     (if tok_type t = T_INT then
        (case py_int (tok_value t) of Inl e \<Rightarrow> None | Inr n \<Rightarrow> Some (VInt n))
      else if tok_type t = T_STRING then Some (VStr (py_str (tok_value t)))
      else if tok_type t = T_BOOL then Some (VBool (py_bool (tok_value t)))
      else None)"

lemma length_flat [simp]: "length (flat ps) = 2 * length ps"
  by (induction ps) (auto simp: flat_def)

lemma flat_Cons [simp]: "flat ((s, t) # ps) = s # t # flat ps"
  by (simp add: flat_def)

lemma flat_Nil [simp]: "flat [] = []"
  by (simp add: flat_def)

lemma peek_at: "length pre = i \<Longrightarrow> peek (pre @ t # rest) i = Inr t"
  by (auto simp: peek_def)

lemma expect_at:
  "length pre = i \<Longrightarrow> tok_type t = ty \<Longrightarrow> expect (pre @ t # rest) i ty msg = Inr (t, i + 1)"
  by (simp add: expect_def peek_at)

lemma match_at:
  "length pre = i \<Longrightarrow>
   match (pre @ t # rest) i ty = (if tok_type t = ty then Inr (True, i + 1) else Inr (False, i))"
  by (simp add: match_def peek_at)

lemma parse_literal_at:
  "length pre = i \<Longrightarrow> literal_of t = Some v \<Longrightarrow> parse_literal (pre @ t # rest) i = Inr (v, i + 1)"
  by (auto simp: parse_literal_def peek_at literal_of_def split: if_splits sum.splits)

lemma more_idents_flat:
  assumes "list_all (\<lambda>(s, c). tok_type s = T_COMMA \<and> tok_type c = T_IDENT) tail"
    and "tok_type stop \<noteq> T_COMMA"
  shows "more_idents (pre @ flat tail @ stop # rest) (length pre) =
           Inr (map (\<lambda>(s, c). py_str (tok_value c)) tail, length pre + 2 * length tail)"
  using assms(1)
proof (induction tail arbitrary: pre)
  case Nil
  show ?case
    by (subst more_idents.simps) (simp add: match_at assms(2))
next
  case (Cons p tail)
  obtain s c where p: "p = (s, c)" by (cases p)
  with Cons.prems have s: "tok_type s = T_COMMA" and c: "tok_type c = T_IDENT"
    and tl: "list_all (\<lambda>(s, c). tok_type s = T_COMMA \<and> tok_type c = T_IDENT) tail"
    by simp_all
  let ?ts = "pre @ s # c # flat tail @ stop # rest"
  have m: "match ?ts (length pre) T_COMMA = Inr (True, Suc (length pre))"
    using match_at[of pre "length pre" s "c # flat tail @ stop # rest" T_COMMA] s by simp
  have e: "expect ?ts (Suc (length pre)) T_IDENT ''Expected column name'' =
             Inr (c, Suc (Suc (length pre)))"
    using expect_at[of "pre @ [s]" "Suc (length pre)" c T_IDENT "flat tail @ stop # rest"] c by simp
  have r: "more_idents ?ts (Suc (Suc (length pre))) =
           Inr (map (\<lambda>(s, c). py_str (tok_value c)) tail, Suc (Suc (length pre + 2 * length tail)))"
    using Cons.IH[OF tl, of "pre @ [s, c]"] by simp
  show ?case
    unfolding p flat_Cons
    by (subst more_idents.simps) (simp add: m e r)
qed

lemma more_literals_flat:
  assumes "list_all (\<lambda>(s, v). tok_type s = T_COMMA \<and> literal_of v \<noteq> None) tail"
    and "tok_type stop \<noteq> T_COMMA"
  shows "more_literals (pre @ flat tail @ stop # rest) (length pre) =
           Inr (map (\<lambda>(s, v). the (literal_of v)) tail, length pre + 2 * length tail)"
  using assms(1)
proof (induction tail arbitrary: pre)
  case Nil
  show ?case
    by (subst more_literals.simps) (simp add: match_at assms(2))
next
  case (Cons p tail)
  obtain s v where p: "p = (s, v)" by (cases p)
  with Cons.prems obtain x where s: "tok_type s = T_COMMA" and v: "literal_of v = Some x"
    and tl: "list_all (\<lambda>(s, v). tok_type s = T_COMMA \<and> literal_of v \<noteq> None) tail"
    by auto
  let ?ts = "pre @ s # v # flat tail @ stop # rest"
  have m: "match ?ts (length pre) T_COMMA = Inr (True, Suc (length pre))"
    using match_at[of pre "length pre" s "v # flat tail @ stop # rest" T_COMMA] s by simp
  have e: "parse_literal ?ts (Suc (length pre)) = Inr (x, Suc (Suc (length pre)))"
    using parse_literal_at[of "pre @ [s]" "Suc (length pre)" v x "flat tail @ stop # rest"] v by simp
  have r: "more_literals ?ts (Suc (Suc (length pre))) =
           Inr (map (\<lambda>(s, v). the (literal_of v)) tail, Suc (Suc (length pre + 2 * length tail)))"
    using Cons.IH[OF tl, of "pre @ [s, v]"] by simp
  show ?case
    unfolding p flat_Cons
    by (subst more_literals.simps) (simp add: m e r v)
qed


text \<open>
  C7, as amended. Take any token list that reads as an INSERT statement up to and
  including the closing parenthesis of its values list, followed by at least one more
  token (\<^verbatim>\<open>;\<close> or EOF in a tokenized input). If the number of columns differs from the
  number of values, \<^verbatim>\<open>parse_insert\<close> raises SqlSyntaxError at the position of the token
  that follows the closing parenthesis.
\<close>

theorem insert_arity_mismatch_position:
  assumes "tok_type ins = T_INSERT" and "tok_type into = T_INTO" and "tok_type tb = T_IDENT"
    and "tok_type lp1 = T_LPAREN" and "tok_type c1 = T_IDENT"
    and ctail: "list_all (\<lambda>(s, c). tok_type s = T_COMMA \<and> tok_type c = T_IDENT) ctail"
    and "tok_type rp1 = T_RPAREN" and "tok_type kw = T_VALUES" and "tok_type lp2 = T_LPAREN"
    and v1: "literal_of v1 \<noteq> None"
    and vtail: "list_all (\<lambda>(s, v). tok_type s = T_COMMA \<and> literal_of v \<noteq> None) vtail"
    and "tok_type rp2 = T_RPAREN"
    and ne: "length ctail \<noteq> length vtail"
  shows "parse_insert
           ([ins, into, tb, lp1, c1] @ flat ctail @ [rp1, kw, lp2, v1] @ flat vtail @ rp2 # nxt # rest) 0
         = Inl (SqlSyntaxError ''Number of columns does not match number of values'' (pos nxt))"
proof -
  let ?n = "2 * length ctail"
  let ?m = "2 * length vtail"
  let ?ts = "[ins, into, tb, lp1, c1] @ flat ctail @ [rp1, kw, lp2, v1] @ flat vtail @ rp2 # nxt # rest"
  from v1 obtain x where x: "literal_of v1 = Some x" by auto
  have e0: "expect ?ts 0 T_INSERT msg = Inr (ins, 1)" for msg
    using expect_at[of "[]" 0 ins T_INSERT _ msg] assms(1) by (simp add: eval_nat_numeral)
  have e1: "expect ?ts 1 T_INTO msg = Inr (into, 2)" for msg
    using expect_at[of "[ins]" 1 into T_INTO _ msg] assms(2) by (simp add: eval_nat_numeral)
  have e2: "expect ?ts 2 T_IDENT msg = Inr (tb, 3)" for msg
    using expect_at[of "[ins, into]" 2 tb T_IDENT _ msg] assms(3) by (simp add: eval_nat_numeral)
  have e3: "expect ?ts 3 T_LPAREN msg = Inr (lp1, 4)" for msg
    using expect_at[of "[ins, into, tb]" 3 lp1 T_LPAREN _ msg] assms(4) by (simp add: eval_nat_numeral)
  have e4: "expect ?ts 4 T_IDENT msg = Inr (c1, 5)" for msg
    using expect_at[of "[ins, into, tb, lp1]" 4 c1 T_IDENT _ msg] assms(5) by (simp add: eval_nat_numeral)
  have e5: "more_idents ?ts 5 = Inr (map (\<lambda>(s, c). py_str (tok_value c)) ctail, 5 + ?n)"
    using more_idents_flat[OF ctail, of rp1 "[ins, into, tb, lp1, c1]"
        "[kw, lp2, v1] @ flat vtail @ rp2 # nxt # rest"] assms(7) by (simp add: eval_nat_numeral)
  have e6: "expect ?ts (5 + ?n) T_RPAREN msg = Inr (rp1, 6 + ?n)" for msg
    using expect_at[of "[ins, into, tb, lp1, c1] @ flat ctail" "5 + ?n" rp1 T_RPAREN
        "[kw, lp2, v1] @ flat vtail @ rp2 # nxt # rest" msg] assms(7) by (simp add: eval_nat_numeral)
  have e7: "expect ?ts (6 + ?n) T_VALUES msg = Inr (kw, 7 + ?n)" for msg
    using expect_at[of "[ins, into, tb, lp1, c1] @ flat ctail @ [rp1]" "6 + ?n" kw T_VALUES
        "[lp2, v1] @ flat vtail @ rp2 # nxt # rest" msg] assms(8) by (simp add: eval_nat_numeral)
  have e8: "expect ?ts (7 + ?n) T_LPAREN msg = Inr (lp2, 8 + ?n)" for msg
    using expect_at[of "[ins, into, tb, lp1, c1] @ flat ctail @ [rp1, kw]" "7 + ?n" lp2 T_LPAREN
        "[v1] @ flat vtail @ rp2 # nxt # rest" msg] assms(9) by (simp add: eval_nat_numeral)
  have e9: "parse_literal ?ts (8 + ?n) = Inr (x, 9 + ?n)"
    using parse_literal_at[of "[ins, into, tb, lp1, c1] @ flat ctail @ [rp1, kw, lp2]" "8 + ?n" v1 x
        "flat vtail @ rp2 # nxt # rest"] x by (simp add: eval_nat_numeral)
  have e10: "more_literals ?ts (9 + ?n) =
               Inr (map (\<lambda>(s, v). the (literal_of v)) vtail, 9 + ?n + ?m)"
    using more_literals_flat[OF vtail, of rp2 "[ins, into, tb, lp1, c1] @ flat ctail @ [rp1, kw, lp2, v1]"
        "nxt # rest"] assms(12) by (simp add: eval_nat_numeral)
  have e11: "expect ?ts (9 + ?n + ?m) T_RPAREN msg = Inr (rp2, 10 + ?n + ?m)" for msg
    using expect_at[of "[ins, into, tb, lp1, c1] @ flat ctail @ [rp1, kw, lp2, v1] @ flat vtail"
        "9 + ?n + ?m" rp2 T_RPAREN "nxt # rest" msg] assms(12) by (simp add: eval_nat_numeral)
  have p: "peek ?ts (10 + ?n + ?m) = Inr nxt"
    using peek_at[of "[ins, into, tb, lp1, c1] @ flat ctail @ [rp1, kw, lp2, v1] @ flat vtail @ [rp2]"
        "10 + ?n + ?m" nxt rest] by (simp add: eval_nat_numeral)
  have lists: "parse_insert_lists ?ts 0 =
      Inr ((py_str (tok_value tb),
            py_str (tok_value c1) # map (\<lambda>(s, c). py_str (tok_value c)) ctail,
            x # map (\<lambda>(s, v). the (literal_of v)) vtail), 10 + ?n + ?m)"
    unfolding parse_insert_lists_def
    by (simp only: e0 e1 e2 e3 e4 e5 e6 e7 e8 e9 e10 e11 and_then_def sum.case prod.case)
  show ?thesis
    unfolding parse_insert_def lists using ne p by simp
qed


text \<open>\<^verbatim>\<open>INSERT INTO t (a, b) VALUES (1);\<close>: two columns, one value.\<close>

definition mismatch_sql :: string where
  "mismatch_sql = ''INSERT INTO t (a, b) VALUES (1);''"

definition tk :: "TokenType \<Rightarrow> string \<Rightarrow> val \<Rightarrow> nat \<Rightarrow> Token" where
  "tk ty lx v c = \<lparr>tok_type = ty, lexeme = lx, tok_value = v, pos = Position 1 c\<rparr>"

lemma mismatch_tokens:
  "projr (tokenize mismatch_sql) =
     [tk T_INSERT ''INSERT'' (VStr ''INSERT'') 1, tk T_INTO ''INTO'' (VStr ''INTO'') 8,
      tk T_IDENT ''t'' (VStr ''t'') 13, tk T_LPAREN ''('' VNull 15, tk T_IDENT ''a'' (VStr ''a'') 16] @
     flat [(tk T_COMMA '','' VNull 17, tk T_IDENT ''b'' (VStr ''b'') 19)] @
     [tk T_RPAREN '')'' VNull 20, tk T_VALUES ''VALUES'' (VStr ''VALUES'') 22,
      tk T_LPAREN ''('' VNull 29, tk T_INT ''1'' (VInt 1) 30] @
     flat [] @
     tk T_RPAREN '')'' VNull 31 # tk T_SEMI '';'' VNull 32 # [tk T_EOF [] VNull 33]"
  by code_simp

text \<open>Witness: the statement above; the error is at column 32, the semicolon.\<close>

theorem insert_arity_mismatch_witness:
  "parse_insert (projr (tokenize mismatch_sql)) 0 =
     Inl (SqlSyntaxError ''Number of columns does not match number of values'' (Position 1 32))"
proof -
  have "parse_insert
     ([tk T_INSERT ''INSERT'' (VStr ''INSERT'') 1, tk T_INTO ''INTO'' (VStr ''INTO'') 8,
      tk T_IDENT ''t'' (VStr ''t'') 13, tk T_LPAREN ''('' VNull 15, tk T_IDENT ''a'' (VStr ''a'') 16] @
     flat [(tk T_COMMA '','' VNull 17, tk T_IDENT ''b'' (VStr ''b'') 19)] @
     [tk T_RPAREN '')'' VNull 20, tk T_VALUES ''VALUES'' (VStr ''VALUES'') 22,
      tk T_LPAREN ''('' VNull 29, tk T_INT ''1'' (VInt 1) 30] @
     flat [] @
     tk T_RPAREN '')'' VNull 31 # tk T_SEMI '';'' VNull 32 # [tk T_EOF [] VNull 33]) 0
    = Inl (SqlSyntaxError ''Number of columns does not match number of values''
             (pos (tk T_SEMI '';'' VNull 32)))"
    by (rule insert_arity_mismatch_position) (simp_all add: tk_def literal_of_def)
  then show ?thesis
    by (simp only: mismatch_tokens) (simp add: tk_def)
qed

text \<open>
  C7 as stated fails there: the closing parenthesis of the values list is the token at
  column 31, and the error carries column 32, the position of the semicolon after it.
\<close>

theorem insert_arity_position_counterexample:
  "parse_insert (projr (tokenize mismatch_sql)) 0 =
     Inl (SqlSyntaxError ''Number of columns does not match number of values'' (Position 1 32)) \<and>
   tok_type (projr (tokenize mismatch_sql) ! 11) = T_RPAREN \<and>
   pos (projr (tokenize mismatch_sql) ! 11) = Position 1 31 \<and>
   tok_type (projr (tokenize mismatch_sql) ! 12) = T_SEMI \<and>
   pos (projr (tokenize mismatch_sql) ! 12) = Position 1 32"
  by code_simp



section \<open>Loading the catalog: \<^verbatim>\<open>Catalog.load\<close>\<close>

text \<open>
  Reading JSON values the way \<^verbatim>\<open>Catalog.load\<close> does. A value of the wrong JSON kind,
  which Python would raise on or let through into an ill-typed catalog, is an error.
\<close>

definition json_items :: "json \<Rightarrow> error + (string \<times> json) list" where
  "json_items j = (case j of JObj kvs \<Rightarrow> Inr kvs | _ \<Rightarrow> Inl (AttributeError ''items''))"

definition json_list :: "json \<Rightarrow> error + json list" where
  "json_list j = (case j of JArr xs \<Rightarrow> Inr xs | _ \<Rightarrow> Inl TypeError)"

definition json_key :: "json \<Rightarrow> string \<Rightarrow> error + json" where
  "json_key j k =
     (case j of
        JObj kvs \<Rightarrow> (case map_of kvs k of None \<Rightarrow> Inl KeyError | Some v \<Rightarrow> Inr v)
      | _ \<Rightarrow> Inl TypeError)"

definition json_get :: "json \<Rightarrow> string \<Rightarrow> json \<Rightarrow> error + json" where
  "json_get j k dflt =
     (case j of
        JObj kvs \<Rightarrow> Inr (case map_of kvs k of None \<Rightarrow> dflt | Some v \<Rightarrow> v)
      | _ \<Rightarrow> Inl (AttributeError ''get''))"

definition json_str :: "json \<Rightarrow> error + string" where
  "json_str j = (case j of JStr s \<Rightarrow> Inr s | _ \<Rightarrow> Inl TypeError)"

text \<open>
  \<^verbatim>\<open>int(s)\<close> of a string: white space around the numeral is dropped (of the spaces of
  \<^verbatim>\<open>str.isspace\<close>, the separators U+001C to U+001F are not), then comes an optional sign
  and a run of decimal digits in which single underscores may stand between digits.
\<close>

definition int_space :: "char \<Rightarrow> bool" where
  "int_space c = (let n = (of_char c :: nat) in n = 32 \<or> (9 \<le> n \<and> n \<le> 13) \<or> n = 133 \<or> n = 160)"

fun digit_run :: "nat \<Rightarrow> string \<Rightarrow> nat option" where
  "digit_run n [] = Some n"
| "digit_run n [c] = (if is_decimal c then Some (10 * n + (of_char c - 48)) else None)"
| "digit_run n (c # d # cs) =
     (if is_decimal c then digit_run (10 * n + (of_char c - 48)) (d # cs)
      else if c = CHR ''_'' \<and> is_decimal d then digit_run (10 * n + (of_char d - 48)) cs
      else None)"

definition py_int_str :: "string \<Rightarrow> int option" where
  "py_int_str s =
     (let t = rev (dropWhile int_space (rev (dropWhile int_space s)));
          (neg, ds) = (case t of
                         [] \<Rightarrow> (False, [])
                       | c # cs \<Rightarrow> if c = CHR ''-'' then (True, cs)
                                   else if c = CHR ''+'' then (False, cs)
                                   else (False, t))
      in case ds of
           [] \<Rightarrow> None
         | d # r \<Rightarrow>
             if is_decimal d
             then map_option (\<lambda>n. if neg then - int n else int n) (digit_run (of_char d - 48) r)
             else None)"

text \<open>
  \<^verbatim>\<open>int(v)\<close> of a JSON value, as \<^verbatim>\<open>load\<close> applies it to the version. (A JSON number
  is an integer here: numbers with a fraction or an exponent are left out.)
\<close>

definition json_int :: "json \<Rightarrow> error + int" where
  "json_int j =
     (case j of
        JInt n \<Rightarrow> Inr n
      | JBool b \<Rightarrow> Inr (bool_int b)
      | JStr s \<Rightarrow> (case py_int_str s of None \<Rightarrow> Inl ValueError | Some n \<Rightarrow> Inr n)
      | _ \<Rightarrow> Inl TypeError)"

text \<open>
  An element of \<^verbatim>\<open>params\<close>: \<^verbatim>\<open>load\<close> copies the list as it is, so an integer (or a
  boolean, which is one) is a type parameter and anything else is of the wrong kind.
\<close>

definition json_param :: "json \<Rightarrow> error + int" where
  "json_param j =
     (case j of
        JInt n \<Rightarrow> Inr n
      | JBool b \<Rightarrow> Inr (bool_int b)
      | _ \<Rightarrow> Inl TypeError)"

text \<open>\<^verbatim>\<open>bool(v)\<close>: Python truthiness.\<close>

definition json_truthy :: "json \<Rightarrow> bool" where
  "json_truthy j =
     (case j of
        JNull \<Rightarrow> False
      | JBool b \<Rightarrow> b
      | JInt n \<Rightarrow> n \<noteq> 0
      | JStr s \<Rightarrow> s \<noteq> []
      | JArr xs \<Rightarrow> xs \<noteq> []
      | JObj kvs \<Rightarrow> kvs \<noteq> [])"

fun map_result :: "('a \<Rightarrow> error + 'b) \<Rightarrow> 'a list \<Rightarrow> error + 'b list" where
  "map_result f [] = Inr []"
| "map_result f (x # xs) =
     (case f x of
        Inl e \<Rightarrow> Inl e
      | Inr y \<Rightarrow> (case map_result f xs of Inl e \<Rightarrow> Inl e | Inr ys \<Rightarrow> Inr (y # ys)))"

definition load_column :: "json \<Rightarrow> error + ColumnDef" where
  "load_column c =
     and_then (json_key c ''typ'') (\<lambda>ty.
     and_then (json_key ty ''name'') (\<lambda>tname_j.
     and_then (json_str tname_j) (\<lambda>tname.
     and_then (json_get ty ''params'' (JArr [])) (\<lambda>params_j.
     and_then (json_list params_j) (\<lambda>params_l.
     and_then (map_result json_param params_l) (\<lambda>ps.
     and_then (json_key c ''name'') (\<lambda>name_j.
     and_then (json_str name_j) (\<lambda>cname.
     and_then (json_get c ''not_null'' (JBool False)) (\<lambda>nn.
     and_then (json_get c ''unique'' (JBool False)) (\<lambda>un.
     and_then (json_get c ''primary_key'' (JBool False)) (\<lambda>pk.
       Inr \<lparr>col_name = cname, col_type = \<lparr>type_name = tname, params = ps\<rparr>,
            not_null = json_truthy nn, unique = json_truthy un,
            primary_key = json_truthy pk\<rparr>)))))))))))"

definition load_index :: "string \<Rightarrow> json \<Rightarrow> error + IndexMeta" where
  "load_index iname im =
     and_then (json_key im ''table_name'') (\<lambda>tn_j.
     and_then (json_str tn_j) (\<lambda>tn.
     and_then (json_key im ''column_name'') (\<lambda>cn_j.
     and_then (json_str cn_j) (\<lambda>cn.
       Inr \<lparr>index_name = iname, index_table = tn, index_column = cn\<rparr>))))"

text \<open>
  The loop over one table's \<^verbatim>\<open>indexes\<close>: every entry goes into the table's map and into
  the global map.
\<close>

fun load_table_indexes ::
  "(string \<times> json) list \<Rightarrow> IndexMeta dict \<Rightarrow> IndexMeta dict \<Rightarrow> error + (IndexMeta dict \<times> IndexMeta dict)" where
  "load_table_indexes [] t_idx g_idx = Inr (t_idx, g_idx)"
| "load_table_indexes ((iname, im) # rest) t_idx g_idx =
     (case load_index iname im of
        Inl e \<Rightarrow> Inl e
      | Inr idx \<Rightarrow>
          load_table_indexes rest (dict_set t_idx iname idx) (dict_set g_idx iname idx))"

definition load_table ::
  "string \<Rightarrow> json \<Rightarrow> IndexMeta dict \<Rightarrow> error + (TableMeta \<times> IndexMeta dict)" where
  "load_table tname t g_idx =
     and_then (json_get t ''columns'' (JArr [])) (\<lambda>cols_j.
     and_then (json_list cols_j) (\<lambda>cols_l.
     and_then (map_result load_column cols_l) (\<lambda>cols.
     and_then (json_get t ''indexes'' (JObj [])) (\<lambda>idx_j.
     and_then (json_items idx_j) (\<lambda>idx_items.
     and_then (load_table_indexes idx_items [] g_idx) (\<lambda>(t_idx, g_idx').
       Inr (\<lparr>table_name = tname, columns = cols, indexes = t_idx\<rparr>, g_idx')))))))"

fun load_tables ::
  "(string \<times> json) list \<Rightarrow> TableMeta dict \<Rightarrow> IndexMeta dict \<Rightarrow> error + (TableMeta dict \<times> IndexMeta dict)" where
  "load_tables [] tbls g_idx = Inr (tbls, g_idx)"
| "load_tables ((tname, t) # rest) tbls g_idx =
     (case load_table tname t g_idx of
        Inl e \<Rightarrow> Inl e
      | Inr (tm, g_idx') \<Rightarrow> load_tables rest (dict_set tbls tname tm) g_idx')"

text \<open>The global \<^verbatim>\<open>indexes\<close> object only adds the names no table brought.\<close>

fun merge_global :: "(string \<times> json) list \<Rightarrow> IndexMeta dict \<Rightarrow> error + IndexMeta dict" where
  "merge_global [] g_idx = Inr g_idx"
| "merge_global ((iname, im) # rest) g_idx =
     (if iname \<in> fst ` set g_idx then merge_global rest g_idx
      else (case load_index iname im of
              Inl e \<Rightarrow> Inl e
            | Inr idx \<Rightarrow> merge_global rest (dict_set g_idx iname idx)))"

definition load :: "json option \<Rightarrow> error + Catalog" where
  "load file =
     (case file of
        None \<Rightarrow> Inr empty_catalog
      | Some raw \<Rightarrow>
          and_then (json_get raw ''version'' (JInt 1)) (\<lambda>v_j.
          and_then (json_int v_j) (\<lambda>v.
          and_then (json_get raw ''tables'' (JObj [])) (\<lambda>tables_j.
          and_then (json_items tables_j) (\<lambda>table_items.
          and_then (load_tables table_items [] []) (\<lambda>(tbls, g_idx).
          and_then (json_get raw ''indexes'' (JObj [])) (\<lambda>g_j.
          and_then (json_items g_j) (\<lambda>g_items.
          and_then (merge_global g_items g_idx) (\<lambda>g_idx'.
            Inr \<lparr>version = v, tables = tbls, global_indexes = g_idx'\<rparr>)))))))))"

section \<open>The catalog round trip\<close>

text \<open>
  Python compares dictionaries by their entries, not by their order, and
  \<^verbatim>\<open>json.dumps(..., sort_keys=True)\<close> reorders them, so two catalogs are equal when their
  versions are equal, their tables agree key by key (same name, same column list in order,
  same per-table index entries) and their global index maps agree key by key.
\<close>

definition dict_rel :: "('v \<Rightarrow> 'v \<Rightarrow> bool) \<Rightarrow> 'v dict \<Rightarrow> 'v dict \<Rightarrow> bool" where
  "dict_rel R a b = (\<forall>k. rel_option R (map_of a k) (map_of b k))"

definition table_eq :: "TableMeta \<Rightarrow> TableMeta \<Rightarrow> bool" where
  "table_eq t1 t2 =
     (table_name t1 = table_name t2 \<and> columns t1 = columns t2 \<and>
      dict_rel (=) (indexes t1) (indexes t2))"

definition catalog_eq :: "Catalog \<Rightarrow> Catalog \<Rightarrow> bool" where
  "catalog_eq c1 c2 =
     (version c1 = version c2 \<and> dict_rel table_eq (tables c1) (tables c2) \<and>
      dict_rel (=) (global_indexes c1) (global_indexes c2))"

text \<open>
  The catalog's invariant. A catalog is a dictionary of tables and a dictionary of indexes
  (keys are distinct), every table and every index is stored under its own name, and the
  per-table index maps agree with the global one: every index of a table is the global
  entry of the same name. \<^verbatim>\<open>save\<close> relies on it: it writes no name but the keys, and
  \<^verbatim>\<open>load\<close> names every table and index by its key and enters every index of a table
  into the global map. \<^verbatim>\<open>Catalog.empty\<close> satisfies the invariant and the executor, the only
  code that changes a catalog, keeps it (\<open>run_saved\<close> below).
\<close>

definition named_by_key :: "IndexMeta dict \<Rightarrow> bool" where
  "named_by_key d = (distinct (map fst d) \<and> (\<forall>(i, idx) \<in> set d. index_name idx = i))"

definition wf_catalog :: "Catalog \<Rightarrow> bool" where
  "wf_catalog c =
     (distinct (map fst (tables c)) \<and> named_by_key (global_indexes c) \<and>
      (\<forall>(k, t) \<in> set (tables c).
         table_name t = k \<and> named_by_key (indexes t) \<and>
         (\<forall>(i, idx) \<in> set (indexes t). map_of (global_indexes c) i = Some idx)))"

subsection \<open>Loading what \<^verbatim>\<open>save\<close> wrote\<close>

lemma map_result_json_param: "map_result json_param (map JInt ps) = Inr ps"
  by (induction ps) (auto simp: json_param_def)

lemma load_column_col_to_dict: "load_column (col_to_dict c) = Inr c"
  by (simp add: load_column_def col_to_dict_def and_then_def json_key_def json_get_def json_str_def
      json_list_def map_result_json_param json_truthy_def)

lemma map_result_load_column: "map_result load_column (map col_to_dict cs) = Inr cs"
  by (induction cs) (auto simp: load_column_col_to_dict)

lemma load_index_to_json:
  "index_name idx = i \<Longrightarrow> load_index i (index_to_json idx) = Inr idx"
  by (auto simp: load_index_def index_to_json_def and_then_def json_key_def json_str_def)

lemma load_table_indexes_saved:
  "\<forall>(i, idx) \<in> set xs. index_name idx = i \<Longrightarrow>
   load_table_indexes (map (\<lambda>(i, idx). (i, index_to_json idx)) xs) ta ga =
     Inr (dict_merge ta xs, dict_merge ga xs)"
proof (induction xs arbitrary: ta ga)
  case Nil
  then show ?case by (simp add: dict_merge_def)
next
  case (Cons p xs)
  obtain i idx where p: "p = (i, idx)" by (cases p)
  with Cons.prems have n: "index_name idx = i" and rest: "\<forall>(i, idx) \<in> set xs. index_name idx = i"
    by auto
  from Cons.IH[OF rest] n p show ?case
    by (simp add: load_index_to_json dict_merge_def)
qed

text \<open>A table as it comes back: named by its key, indexes in key order.\<close>

definition reloaded_table :: "string \<Rightarrow> TableMeta \<Rightarrow> TableMeta" where
  "reloaded_table k t =
     \<lparr>table_name = k, columns = columns t, indexes = dict_merge [] (sort_key fst (indexes t))\<rparr>"

lemma load_table_saved:
  assumes "\<forall>(i, idx) \<in> set (indexes t). index_name idx = i"
  shows "load_table k (table_to_json t) g =
           Inr (reloaded_table k t, dict_merge g (sort_key fst (indexes t)))"
proof -
  have "\<forall>(i, idx) \<in> set (sort_key fst (indexes t)). index_name idx = i"
    using assms by simp
  from load_table_indexes_saved[OF this] show ?thesis
    by (simp add: load_table_def table_to_json_def indexes_to_json_def and_then_def json_get_def
        json_list_def json_items_def map_result_load_column reloaded_table_def)
qed

lemma load_tables_saved:
  "\<forall>(k, t) \<in> set ts. \<forall>(i, idx) \<in> set (indexes t). index_name idx = i \<Longrightarrow>
   load_tables (map (\<lambda>(k, t). (k, table_to_json t)) ts) ta ga =
     Inr (foldl (\<lambda>d (k, t). dict_set d k (reloaded_table k t)) ta ts,
          foldl (\<lambda>g (k, t). dict_merge g (sort_key fst (indexes t))) ga ts)"
proof (induction ts arbitrary: ta ga)
  case Nil
  then show ?case by simp
next
  case (Cons p ts)
  obtain k t where p: "p = (k, t)" by (cases p)
  with Cons.prems have n: "\<forall>(i, idx) \<in> set (indexes t). index_name idx = i"
    and rest: "\<forall>(k, t) \<in> set ts. \<forall>(i, idx) \<in> set (indexes t). index_name idx = i"
    by auto
  from Cons.IH[OF rest] p show ?case
    by (simp add: load_table_saved[OF n])
qed

lemma merge_global_saved:
  "\<forall>(i, idx) \<in> set gs. index_name idx = i \<Longrightarrow>
   \<exists>r. merge_global (map (\<lambda>(i, idx). (i, index_to_json idx)) gs) acc = Inr r \<and>
       (\<forall>k. map_of r k = (case map_of acc k of Some v \<Rightarrow> Some v | None \<Rightarrow> map_of gs k))"
proof (induction gs arbitrary: acc)
  case Nil
  then show ?case by (auto split: option.splits)
next
  case (Cons p gs)
  obtain i idx where p: "p = (i, idx)" by (cases p)
  with Cons.prems have n: "index_name idx = i" and rest: "\<forall>(i, idx) \<in> set gs. index_name idx = i"
    by auto
  show ?case
  proof (cases "i \<in> fst ` set acc")
    case True
    then have nn: "map_of acc i \<noteq> None" by (simp add: map_of_eq_None_iff)
    from Cons.IH[OF rest, of acc] obtain r where
      r: "merge_global (map (\<lambda>(i, idx). (i, index_to_json idx)) gs) acc = Inr r" and
      m: "\<And>k. map_of r k = (case map_of acc k of Some v \<Rightarrow> Some v | None \<Rightarrow> map_of gs k)"
      by blast
    have "map_of r k = (case map_of acc k of Some v \<Rightarrow> Some v | None \<Rightarrow> map_of (p # gs) k)" for k
      using m[of k] nn p by (cases "map_of acc k") auto
    with r True p show ?thesis by simp
  next
    case False
    then have none: "map_of acc i = None" by (simp add: map_of_eq_None_iff)
    from Cons.IH[OF rest, of "dict_set acc i idx"] obtain r where
      r: "merge_global (map (\<lambda>(i, idx). (i, index_to_json idx)) gs) (dict_set acc i idx) = Inr r" and
      m: "\<And>k. map_of r k =
            (case map_of (dict_set acc i idx) k of Some v \<Rightarrow> Some v | None \<Rightarrow> map_of gs k)"
      by blast
    have "map_of r k = (case map_of acc k of Some v \<Rightarrow> Some v | None \<Rightarrow> map_of (p # gs) k)" for k
      using m[of k] none p by (cases "k = i") (auto simp: map_of_dict_set split: option.splits)
    with r False p n show ?thesis by (simp add: load_index_to_json)
  qed
qed

lemma distinct_keys_insort:
  "distinct (map fst (insort_key fst x xs)) = (fst x \<notin> fst ` set xs \<and> distinct (map fst xs))"
  by (induction xs) (auto simp: set_insort_key)

lemma distinct_keys_sort: "distinct (map fst (sort_key fst xs)) = distinct (map fst xs)"
  by (induction xs) (auto simp: distinct_keys_insort)

lemma map_of_sort: "distinct (map fst xs) \<Longrightarrow> map_of (sort_key fst xs) = map_of xs"
  by (subst map_of_inject_set) (simp_all add: distinct_keys_sort)

lemma map_of_rev_distinct: "distinct (map fst xs) \<Longrightarrow> map_of (rev xs) = map_of xs"
  by (subst map_of_inject_set) (simp_all add: rev_map[symmetric])

lemma map_of_dict_merge:
  "map_of (dict_merge a b) k = (case map_of (rev b) k of None \<Rightarrow> map_of a k | Some v \<Rightarrow> Some v)"
  by (simp add: dict_merge_def map_of_foldl_dict_set)

lemma map_of_dict_merge_sorted:
  "distinct (map fst xs) \<Longrightarrow>
   map_of (dict_merge a (sort_key fst xs)) k =
     (case map_of xs k of None \<Rightarrow> map_of a k | Some v \<Rightarrow> Some v)"
  by (simp add: map_of_dict_merge map_of_rev_distinct distinct_keys_sort map_of_sort)

lemma table_eq_reloaded:
  "distinct (map fst (indexes t)) \<Longrightarrow> table_name t = k \<Longrightarrow> table_eq (reloaded_table k t) t"
  by (simp add: table_eq_def reloaded_table_def dict_rel_def map_of_dict_merge_sorted
      option.rel_eq split: option.splits)

lemma map_of_reloaded_tables:
  "map_of (foldl (\<lambda>d (k, t). dict_set d k (reloaded_table k t)) d ts) k =
     (case map_of (rev ts) k of None \<Rightarrow> map_of d k | Some t \<Rightarrow> Some (reloaded_table k t))"
proof (induction ts arbitrary: d)
  case Nil
  then show ?case by simp
next
  case (Cons p ts)
  obtain k' t where p: "p = (k', t)" by (cases p)
  show ?case
    by (simp add: p Cons map_of_dict_set map_add_def split: option.splits)
qed

lemma table_index_entries:
  assumes "\<And>k v. map_of g k = Some v \<Longrightarrow> P k v"
    and "\<forall>(k, t) \<in> set ts. distinct (map fst (indexes t)) \<and> (\<forall>(i, idx) \<in> set (indexes t). P i idx)"
    and "map_of (foldl (\<lambda>g (k, t). dict_merge g (sort_key fst (indexes t))) g ts) k = Some v"
  shows "P k v"
  using assms
proof (induction ts arbitrary: g)
  case Nil
  then show ?case by simp
next
  case (Cons p ts)
  obtain k' t where p: "p = (k', t)" by (cases p)
  from Cons.prems(2) p have d: "distinct (map fst (indexes t))"
    and here: "\<forall>(i, idx) \<in> set (indexes t). P i idx"
    and rest: "\<forall>(k, t) \<in> set ts. distinct (map fst (indexes t)) \<and> (\<forall>(i, idx) \<in> set (indexes t). P i idx)"
    by auto
  have step: "P k v" if "map_of (dict_merge g (sort_key fst (indexes t))) k = Some v" for k v
  proof (cases "map_of (indexes t) k")
    case None
    with that d have "map_of g k = Some v" by (simp add: map_of_dict_merge_sorted)
    then show ?thesis by (rule Cons.prems(1))
  next
    case (Some w)
    with that d have "w = v" by (simp add: map_of_dict_merge_sorted)
    with Some have "(k, v) \<in> set (indexes t)" by (auto dest: map_of_SomeD)
    with here show ?thesis by auto
  qed
  from Cons.prems(3) p
  have "map_of (foldl (\<lambda>g (k, t). dict_merge g (sort_key fst (indexes t)))
                  (dict_merge g (sort_key fst (indexes t))) ts) k = Some v"
    by simp
  from Cons.IH[OF step rest this] show ?case .
qed

lemma load_save_wf:
  assumes "wf_catalog c"
  shows "\<exists>c'. load (Some (save c)) = Inr c' \<and> catalog_eq c' c"
proof -
  let ?ts = "sort_key fst (tables c)"
  let ?gs = "sort_key fst (global_indexes c)"
  let ?T = "foldl (\<lambda>d (k, t). dict_set d k (reloaded_table k t)) [] ?ts"
  let ?G = "foldl (\<lambda>g (k, t). dict_merge g (sort_key fst (indexes t))) [] ?ts"
  from assms have dt: "distinct (map fst (tables c))"
    and dg: "distinct (map fst (global_indexes c))"
    and ng: "\<forall>(i, idx) \<in> set (global_indexes c). index_name idx = i"
    and tabs: "\<forall>(k, t) \<in> set (tables c). table_name t = k \<and> distinct (map fst (indexes t)) \<and>
                 (\<forall>(i, idx) \<in> set (indexes t). index_name idx = i) \<and>
                 (\<forall>(i, idx) \<in> set (indexes t). map_of (global_indexes c) i = Some idx)"
    by (auto simp: wf_catalog_def named_by_key_def)
  have names: "\<forall>(k, t) \<in> set ?ts. \<forall>(i, idx) \<in> set (indexes t). index_name idx = i"
    using tabs by auto
  have lt: "load_tables (map (\<lambda>(k, t). (k, table_to_json t)) ?ts) [] [] = Inr (?T, ?G)"
    by (rule load_tables_saved[OF names])
  have "\<forall>(i, idx) \<in> set ?gs. index_name idx = i" using ng by simp
  from merge_global_saved[OF this, of ?G] obtain r where
    r: "merge_global (map (\<lambda>(i, idx). (i, index_to_json idx)) ?gs) ?G = Inr r" and
    m: "\<And>k. map_of r k = (case map_of ?G k of Some v \<Rightarrow> Some v | None \<Rightarrow> map_of ?gs k)"
    by blast
  let ?c' = "\<lparr>version = version c, tables = ?T, global_indexes = r\<rparr>"
  have ld: "load (Some (save c)) = Inr ?c'"
    by (simp add: load_def save_def and_then_def json_get_def json_int_def json_items_def
        indexes_to_json_def lt r)
  have agree: "map_of (global_indexes c) k = Some v" if "map_of ?G k = Some v" for k v
  proof (rule table_index_entries[where P = "\<lambda>k v. map_of (global_indexes c) k = Some v",
        OF _ _ that])
    show "\<forall>(k, t) \<in> set ?ts. distinct (map fst (indexes t)) \<and>
            (\<forall>(i, idx) \<in> set (indexes t). map_of (global_indexes c) i = Some idx)"
      using tabs by auto
  qed simp
  have g: "map_of r k = map_of (global_indexes c) k" for k
    using m[of k] agree[of k] dg by (cases "map_of ?G k") (auto simp: map_of_sort)
  have t: "rel_option table_eq (map_of ?T k) (map_of (tables c) k)" for k
  proof (cases "map_of (tables c) k")
    case None
    with dt show ?thesis
      by (simp add: map_of_reloaded_tables map_of_rev_distinct distinct_keys_sort map_of_sort)
  next
    case (Some t)
    then have "(k, t) \<in> set (tables c)" by (rule map_of_SomeD)
    with tabs have "table_name t = k" "distinct (map fst (indexes t))" by auto
    then have "table_eq (reloaded_table k t) t" by (intro table_eq_reloaded)
    with Some dt show ?thesis
      by (simp add: map_of_reloaded_tables map_of_rev_distinct distinct_keys_sort map_of_sort)
  qed
  have "catalog_eq ?c' c"
    using g t by (simp add: catalog_eq_def dict_rel_def option.rel_eq)
  with ld show ?thesis by blast
qed


subsection \<open>The catalog file of a running database\<close>

text \<open>
  The executor saves the catalog after every \<^verbatim>\<open>CREATE\<close> it accepts and changes it nowhere
  else, so in every state the catalog is well formed and the file, when there is one,
  holds the catalog as saved; while there is none the catalog is the empty one.
\<close>

definition catalog_saved :: "db \<Rightarrow> bool" where
  "catalog_saved st =
     (wf_catalog (catalog st) \<and>
      (case catalog_file st of
         None \<Rightarrow> catalog st = empty_catalog
       | Some j \<Rightarrow> j = save (catalog st)))"

lemma catalog_file_put [simp]: "catalog_file (put_heap st tn h) = catalog_file st"
  by (simp add: put_heap_def)

lemma catalog_file_open [simp]: "catalog_file (open_heap st tn) = catalog_file st"
  by (simp add: open_heap_def)

lemma exec_insert_catalog:
  "catalog (fst (exec_insert st tn cols vals)) = catalog st \<and>
   catalog_file (fst (exec_insert st tn cols vals)) = catalog_file st"
  unfolding exec_insert_def insert_built_row_def Let_def
  by (auto split: sum.splits option.splits)

lemma exec_select_catalog:
  "catalog (fst (exec_select st cols tn joins w)) = catalog st \<and>
   catalog_file (fst (exec_select st cols tn joins w)) = catalog_file st"
  unfolding exec_select_def Let_def
  by (auto split: sum.splits option.splits)

lemma exec_update_catalog:
  "catalog (fst (exec_update st tn asgs w)) = catalog st \<and>
   catalog_file (fst (exec_update st tn asgs w)) = catalog_file st"
  unfolding exec_update_def Let_def
  by (auto split: sum.splits option.splits prod.splits)

lemma exec_delete_catalog:
  "catalog (fst (exec_delete st tn w)) = catalog st \<and>
   catalog_file (fst (exec_delete st tn w)) = catalog_file st"
  unfolding exec_delete_def Let_def
  by (auto split: sum.splits option.splits prod.splits)

lemma dict_set_absent: "k \<notin> fst ` set d \<Longrightarrow> dict_set d k v = d @ [(k, v)]"
  by (induction d) auto

lemma wf_catalog_add_table:
  assumes "wf_catalog c" and "tn \<notin> fst ` set (tables c)"
  shows "wf_catalog (c\<lparr>tables := dict_set (tables c) tn \<lparr>table_name = tn, columns = cols, indexes = []\<rparr>\<rparr>)"
  using assms
  by (auto simp: wf_catalog_def dict_set_absent named_by_key_def)

lemma wf_catalogI:
  "distinct (map fst T) \<Longrightarrow> named_by_key G \<Longrightarrow>
   \<forall>(k, t) \<in> set T. table_name t = k \<and> named_by_key (indexes t) \<and>
      (\<forall>(i, idx) \<in> set (indexes t). map_of G i = Some idx) \<Longrightarrow>
   tables c = T \<Longrightarrow> global_indexes c = G \<Longrightarrow> wf_catalog c"
  by (simp add: wf_catalog_def)

lemma wf_catalog_add_index:
  assumes wf: "wf_catalog c" and new: "iname \<notin> fst ` set (global_indexes c)"
    and t: "map_of (tables c) tn = Some t"
  shows "wf_catalog (c\<lparr>global_indexes := dict_set (global_indexes c) iname
                          \<lparr>index_name = iname, index_table = tn, index_column = cname\<rparr>,
                       tables := dict_set (tables c) tn
                          (t\<lparr>indexes := dict_set (indexes t) iname
                               \<lparr>index_name = iname, index_table = tn, index_column = cname\<rparr>\<rparr>)\<rparr>)"
proof -
  let ?idx = "\<lparr>index_name = iname, index_table = tn, index_column = cname\<rparr>"
  from wf have dt: "distinct (map fst (tables c))" by (simp add: wf_catalog_def)
  from t have tin: "(tn, t) \<in> set (tables c)" by (rule map_of_SomeD)
  then have tk: "tn \<in> fst ` set (tables c)" by force
  have keys_in_global: "i \<in> fst ` set (global_indexes c)"
    if "(k, t') \<in> set (tables c)" "(i, x) \<in> set (indexes t')" for k t' i x
  proof -
    from wf that have "map_of (global_indexes c) i = Some x" by (auto simp: wf_catalog_def)
    then have "(i, x) \<in> set (global_indexes c)" by (rule map_of_SomeD)
    then show ?thesis by force
  qed
  from keys_in_global[OF tin] new have newt: "iname \<notin> fst ` set (indexes t)" by auto
  have g: "map_of (global_indexes c @ [(iname, ?idx)]) i = Some x"
    if "map_of (global_indexes c) i = Some x" for i x
    using that by (simp add: map_add_def)
  from new have "map_of (global_indexes c) iname = None" by (simp add: map_of_eq_None_iff)
  then have gnew: "map_of (global_indexes c @ [(iname, ?idx)]) iname = Some ?idx"
    by (simp add: map_add_def)
  let ?t' = "t\<lparr>indexes := dict_set (indexes t) iname ?idx\<rparr>"
  let ?G' = "global_indexes c @ [(iname, ?idx)]"
  let ?T' = "map (\<lambda>(k', v0). (k', if k' = tn then ?t' else v0)) (tables c)"
  have it: "indexes ?t' = indexes t @ [(iname, ?idx)]"
    using newt by (simp add: dict_set_absent)
  have G: "dict_set (global_indexes c) iname ?idx = ?G'"
    using new by (simp add: dict_set_absent)
  have T: "dict_set (tables c) tn ?t' = ?T'"
    using dt tk by (rule dict_set_present)
  have keysT: "map fst ?T' = map fst (tables c)"
    by (simp add: case_prod_beta comp_def)
  from wf have nG: "named_by_key (global_indexes c)" by (simp add: wf_catalog_def)
  have nG': "named_by_key ?G'"
    using nG new by (auto simp: named_by_key_def)
  have entry: "table_name x = k \<and> named_by_key (indexes x) \<and>
               (\<forall>(i, y) \<in> set (indexes x). map_of ?G' i = Some y)"
    if kx: "(k, x) \<in> set ?T'" for k x
  proof -
    from kx obtain v0 where v0: "(k, v0) \<in> set (tables c)"
      and x: "x = (if k = tn then ?t' else v0)" by auto
    from wf v0 have w0: "table_name v0 = k" "named_by_key (indexes v0)"
      "\<forall>(i, y) \<in> set (indexes v0). map_of (global_indexes c) i = Some y"
      by (auto simp: wf_catalog_def)
    show ?thesis
    proof (cases "k = tn")
      case False
      with x w0 g show ?thesis by auto
    next
      case True
      with v0 tin dt have "v0 = t" by (auto dest: eq_key_imp_eq_value)
      with w0 True have wt: "table_name t = tn" "named_by_key (indexes t)"
        "\<forall>(i, y) \<in> set (indexes t). map_of (global_indexes c) i = Some y"
        by simp_all
      have "named_by_key (indexes ?t')"
        unfolding it using wt(2) newt by (auto simp: named_by_key_def)
      moreover have "\<forall>(i, y) \<in> set (indexes ?t'). map_of ?G' i = Some y"
        unfolding it using wt(3) g gnew by auto
      ultimately show ?thesis using True x wt(1) by simp
    qed
  qed
  have tabs: "\<forall>(k, x) \<in> set ?T'. table_name x = k \<and> named_by_key (indexes x) \<and>
               (\<forall>(i, y) \<in> set (indexes x). map_of ?G' i = Some y)"
  proof (rule ballI)
    fix p assume p: "p \<in> set ?T'"
    obtain k x where kx: "p = (k, x)" by (cases p)
    from p have "(k, x) \<in> set ?T'" unfolding kx .
    from entry[OF this]
    show "case p of (k, x) \<Rightarrow> table_name x = k \<and> named_by_key (indexes x) \<and>
               (\<forall>(i, y) \<in> set (indexes x). map_of ?G' i = Some y)"
      unfolding kx prod.case .
  qed
  have dT': "distinct (map fst ?T')" unfolding keysT by (rule dt)
  show ?thesis unfolding G T
    by (rule wf_catalogI[OF dT' nG' tabs]) simp_all
qed

lemma exec_create_table_saved:
  assumes "catalog_saved st"
  shows "catalog_saved (fst (exec_create_table st tn cols))"
proof (cases "validate_create_table (catalog st) tn cols")
  case (Some e)
  with assms show ?thesis by (simp add: exec_create_table_def)
next
  case None
  then have "tn \<notin> fst ` set (tables (catalog st))"
    by (auto simp: validate_create_table_def split: if_splits)
  from wf_catalog_add_table[OF _ this, of cols] assms None show ?thesis
    by (simp add: exec_create_table_def catalog_saved_def save_catalog_def Let_def)
qed

lemma exec_create_index_saved:
  assumes "catalog_saved st"
  shows "catalog_saved (fst (exec_create_index st iname tn cname))"
proof (cases "validate_create_index (catalog st) iname tn cname")
  case (Some e)
  with assms show ?thesis by (simp add: exec_create_index_def)
next
  case None
  then obtain t where t: "require_table (catalog st) tn = Inr t"
    and new: "iname \<notin> fst ` set (global_indexes (catalog st))"
    by (auto simp: validate_create_index_def split: if_splits sum.splits)
  from t have m: "map_of (tables (catalog st)) tn = Some t" by (rule require_table_Some)
  from assms have wf: "wf_catalog (catalog st)" by (simp add: catalog_saved_def)
  from wf_catalog_add_index[OF wf new m, of cname] None t m show ?thesis
    by (simp add: exec_create_index_def catalog_saved_def save_catalog_def Let_def require_table_def)
qed

lemma catalog_saved_same:
  "catalog st' = catalog st \<and> catalog_file st' = catalog_file st \<Longrightarrow>
   catalog_saved st \<Longrightarrow> catalog_saved st'"
  by (auto simp: catalog_saved_def split: option.splits)

lemma execute_saved:
  assumes "catalog_saved st"
  shows "catalog_saved (fst (execute st stmt))"
proof (cases stmt)
  case (CreateTable tn cols)
  with assms show ?thesis by (simp add: exec_create_table_saved)
next
  case (CreateIndex iname tn cname)
  with assms show ?thesis by (simp add: exec_create_index_saved)
next
  case (Insert tn cols vals)
  with catalog_saved_same[OF exec_insert_catalog assms] show ?thesis by simp
next
  case (Select cols tn joins w)
  with catalog_saved_same[OF exec_select_catalog assms] show ?thesis by simp
next
  case (Update tn asgs w)
  with catalog_saved_same[OF exec_update_catalog assms] show ?thesis by simp
next
  case (Delete tn w)
  with catalog_saved_same[OF exec_delete_catalog assms] show ?thesis by simp
qed

lemma run_saved: "catalog_saved st \<Longrightarrow> catalog_saved (run st stmts)"
  by (induction stmts arbitrary: st) (simp_all add: execute_saved)

lemma init_db_saved: "catalog_saved init_db"
  by (simp add: catalog_saved_def init_db_def empty_catalog_def wf_catalog_def named_by_key_def)

lemma catalog_eq_refl: "catalog_eq c c"
proof -
  have "rel_option table_eq x x" for x
    by (cases x) (simp_all add: table_eq_def dict_rel_def option.rel_eq)
  then show ?thesis by (simp add: catalog_eq_def dict_rel_def option.rel_eq)
qed

text \<open>
  C8: catalog persistence round-trips. For every catalog (a value with the catalog's
  invariant), saving it and loading it back succeeds and yields an equal catalog: same
  version, same tables with identical column definitions in order, same per-table and
  global index maps. In particular, whatever statements a database that started empty has
  executed, so after any accepted CREATE, loading its catalog file, as reopening does,
  yields a catalog equal to the one it holds.
\<close>

theorem catalog_round_trip:
  "(wf_catalog c \<longrightarrow> (\<exists>c'. load (Some (save c)) = Inr c' \<and> catalog_eq c' c)) \<and>
   (\<exists>c'. load (catalog_file (run init_db stmts)) = Inr c' \<and>
         catalog_eq c' (catalog (run init_db stmts)))"
proof
  show "wf_catalog c \<longrightarrow> (\<exists>c'. load (Some (save c)) = Inr c' \<and> catalog_eq c' c)"
    by (simp add: load_save_wf)
next
  let ?st = "run init_db stmts"
  have s: "catalog_saved ?st" using init_db_saved by (rule run_saved)
  show "\<exists>c'. load (catalog_file ?st) = Inr c' \<and> catalog_eq c' (catalog ?st)"
  proof (cases "catalog_file ?st")
    case None
    with s have "catalog ?st = empty_catalog" by (simp add: catalog_saved_def)
    with None show ?thesis by (simp add: load_def catalog_eq_refl)
  next
    case (Some j)
    with s have "j = save (catalog ?st)" and "wf_catalog (catalog ?st)"
      by (simp_all add: catalog_saved_def)
    with Some load_save_wf[of "catalog ?st"] show ?thesis by simp
  qed
qed

text \<open>
  \<^verbatim>\<open>CREATE TABLE users (id INTEGER PRIMARY KEY, email VARCHAR(255));
  CREATE INDEX users_email ON users (email);\<close>
\<close>

definition indexed_script :: "Statement list" where
  "indexed_script =
     [CreateTable ''users'' users_columns, CreateIndex ''users_email'' ''users'' ''email'']"

theorem catalog_round_trip_witness:
  "wf_catalog (catalog (run init_db indexed_script)) \<and>
   map fst (tables (catalog (run init_db indexed_script))) = [''users''] \<and>
   map fst (global_indexes (catalog (run init_db indexed_script))) = [''users_email''] \<and>
   (\<exists>c'. load (Some (save (catalog (run init_db indexed_script)))) = Inr c' \<and>
         catalog_eq c' (catalog (run init_db indexed_script))) \<and>
   (\<exists>c'. load (catalog_file (run init_db indexed_script)) = Inr c' \<and>
         catalog_eq c' (catalog (run init_db indexed_script)))"
proof -
  have wf: "wf_catalog (catalog (run init_db indexed_script))" by code_simp
  have t: "map fst (tables (catalog (run init_db indexed_script))) = [''users'']" by code_simp
  have g: "map fst (global_indexes (catalog (run init_db indexed_script))) = [''users_email'']"
    by code_simp
  from catalog_round_trip[of "catalog (run init_db indexed_script)" indexed_script] wf t g
  show ?thesis by simp
qed

end
